theory Spec2Isabelle
  imports Complex_Main
begin

section \<open>Python values\<close>

text \<open>
  A Python \<open>str\<close> is a sequence of Unicode code points and \<open>len\<close> counts code points,
  so a string is a list of code points. The keywords of the classifier are Cyrillic:
  they do not fit the 8-bit characters of \<open>string\<close>.
\<close>

type_synonym pystr = "nat list"

definition ascii :: "string \<Rightarrow> pystr" where
  "ascii s = map of_char s"

text \<open>
  What \<open>json.loads\<close> returns, floats left out (the walker writes integers and strings
  only). A dictionary lists its items in insertion order, keys distinct.
\<close>

datatype pyval =
    PNone
  | PBool bool
  | PInt int
  | PStr pystr
  | PList "pyval list"
  | PDict "(pystr \<times> pyval) list"

datatype py_error = JSONDecodeError | KeyError | TypeError | UnicodeEncodeError

text \<open>
  The element a \<open>set\<close> stores for a value: \<open>True == 1\<close> and \<open>False == 0\<close> hash alike,
  lists and dictionaries are unhashable (\<open>TypeError\<close>).
\<close>

fun hkey :: "pyval \<Rightarrow> pyval option" where
  "hkey (PBool b) = Some (PInt (if b then 1 else 0))"
| "hkey (PList xs) = None"
| "hkey (PDict kvs) = None"
| "hkey v = Some v"

text \<open>\<open>obj["id"]\<close>\<close>

fun getitem_id :: "pyval \<Rightarrow> py_error + pyval" where
  "getitem_id (PDict kvs) =
     (case map_of kvs (ascii ''id'') of None \<Rightarrow> Inl KeyError | Some v \<Rightarrow> Inr v)"
| "getitem_id v = Inl TypeError"

text \<open>\<open>str(n)\<close> for an integer.\<close>

function digits :: "nat \<Rightarrow> pystr" where
  "digits n = (if n < 10 then [48 + n] else digits (n div 10) @ [48 + n mod 10])"
  by pat_completeness auto
termination
  by (relation "measure id") auto

declare digits.simps [simp del]

definition str_int :: "int \<Rightarrow> pystr" where
  "str_int i = (if i < 0 then 45 # digits (nat (- i)) else digits (nat i))"

text \<open>
  \<open>s.encode("utf-8")\<close>, and writing \<open>s\<close> to a file opened with that encoding, raise
  \<open>UnicodeEncodeError\<close> when \<open>s\<close> holds a lone surrogate (U+D800 to U+DFFF).
\<close>

definition utf8_ok :: "pystr \<Rightarrow> bool" where
  "utf8_ok s \<longleftrightarrow> list_all (\<lambda>c. c < 55296 \<or> 57343 < c) s"

text \<open>The size in bytes of a string written as UTF-8.\<close>

definition utf8_len :: "nat \<Rightarrow> nat" where
  "utf8_len c = (if c < 128 then 1 else if c < 2048 then 2 else if c < 65536 then 3 else 4)"

definition utf8_size :: "pystr \<Rightarrow> nat" where
  "utf8_size s = sum_list (map utf8_len s)"

text \<open>The code points that \<open>str.split()\<close> and the pattern \<open>\s\<close> treat as whitespace.\<close>

definition py_isspace :: "nat \<Rightarrow> bool" where
  "py_isspace c \<longleftrightarrow>
     (9 \<le> c \<and> c \<le> 13) \<or> (28 \<le> c \<and> c \<le> 32) \<or> c = 133 \<or> c = 160 \<or> c = 5760 \<or>
     (8192 \<le> c \<and> c \<le> 8202) \<or> c = 8232 \<or> c = 8233 \<or> c = 8239 \<or> c = 8287 \<or> c = 12288"

text \<open>\<open>len(text.split())\<close>: the number of maximal runs of non-whitespace.\<close>

fun word_count :: "pystr \<Rightarrow> nat" where
  "word_count [] = 0"
| "word_count (c # cs) =
     (if \<not> py_isspace c \<and> (case cs of [] \<Rightarrow> True | d # _ \<Rightarrow> py_isspace d)
      then Suc (word_count cs) else word_count cs)"

text \<open>\<open>sub in s\<close> for strings.\<close>

fun starts_with :: "pystr \<Rightarrow> pystr \<Rightarrow> bool" where
  "starts_with [] s = True"
| "starts_with (c # cs) [] = False"
| "starts_with (c # cs) (d # ds) = (c = d \<and> starts_with cs ds)"

fun contains :: "pystr \<Rightarrow> pystr \<Rightarrow> bool" where
  "contains sub [] = (sub = [])"
| "contains sub (d # ds) = (starts_with sub (d # ds) \<or> contains sub ds)"

section \<open>Configuration\<close>

definition TARGET_PER_SITE :: nat where
  "TARGET_PER_SITE = 150"

definition MAX_RETRIES :: nat where
  "MAX_RETRIES = 3"

text \<open>\<open>1.0\<close>, \<open>1.5\<close> and their products up to the retry ceiling are exact in binary
  floating point, so the waits are rationals.\<close>

definition BACKOFF_FACTOR :: rat where
  "BACKOFF_FACTOR = 3 / 2"

text \<open>
  One entry of \<open>SITES\<close>. \<open>pattern\<close> is the template applied to an identifier
  (\<open>pattern.format(current_id)\<close>).
\<close>

record site_cfg =
  pattern :: "int \<Rightarrow> pystr"
  start_id :: int
  step :: int

definition povarenok :: pystr where
  "povarenok = ascii ''povarenok''"

definition koolinar :: pystr where
  "koolinar = ascii ''koolinar''"

definition povarenok_cfg :: site_cfg where
  "povarenok_cfg = \<lparr> pattern = (\<lambda>i. ascii ''https://www.povarenok.ru/recipes/show/'' @ str_int i @ ascii ''/''),
       start_id = 20000, step = - 1 \<rparr>"

definition koolinar_cfg :: site_cfg where
  "koolinar_cfg = \<lparr> pattern = (\<lambda>i. ascii ''https://www.koolinar.ru/recipe/view/'' @ str_int i),
       start_id = 150000, step = - 1 \<rparr>"

section \<open>The outside world\<close>

text \<open>
  The libraries the program calls are parameters: the \<open>n\<close>-th \<open>session.get\<close> of the
  run (a response, or a \<open>requests.RequestException\<close>), \<open>str.lower\<close>, the text
  BeautifulSoup extracts, \<open>json.loads\<close> and \<open>json.dumps\<close>, and the \<open>n\<close>-th draw of
  \<open>random.uniform(*DELAY_BETWEEN_REQUESTS)\<close>.
\<close>

datatype reply = Response int pystr | RequestException

record env =
  http_get :: "nat \<Rightarrow> pystr \<Rightarrow> reply"
  str_lower :: "pystr \<Rightarrow> pystr"
  soup_get_text :: "pystr \<Rightarrow> pystr"
  json_loads :: "pystr \<Rightarrow> py_error + pyval"
  json_dumps :: "pyval \<Rightarrow> pystr"
  random_uniform :: "nat \<Rightarrow> rat"

text \<open>
  What the program changes outside its own variables: the requests sent and the sleeps
  taken, in order, and the files (path to content). \<open>gets\<close> and \<open>draws\<close> count the
  requests and the random draws made so far. A file holds the text written to it;
  opening and writing a file are taken to succeed, except that text with a lone
  surrogate cannot be encoded (see \<open>utf8_ok\<close>).
\<close>

datatype event = Get pystr | Sleep rat

record world =
  gets :: nat
  draws :: nat
  events :: "event list"
  files :: "pystr \<rightharpoonup> pystr"

section \<open>fetch_url\<close>

text \<open>
  The loop \<open>for attempt in range(1, MAX_RETRIES + 1)\<close>, from \<open>attempt\<close> on, with the
  current \<open>wait\<close>. The result is \<open>(status, text)\<close>, or \<open>(None, None)\<close>.
\<close>

function fetch_loop ::
  "env \<Rightarrow> pystr \<Rightarrow> nat \<Rightarrow> rat \<Rightarrow> world \<Rightarrow> (int option \<times> pystr option) \<times> world" where
  "fetch_loop e url attempt wait w =
     (if attempt > MAX_RETRIES then ((None, None), w)
      else
        let w1 = w\<lparr>gets := gets w + 1, events := events w @ [Get url]\<rparr> in
        case http_get e (gets w) url of
          Response status text \<Rightarrow> ((Some status, Some text), w1)
        | RequestException \<Rightarrow>
            if attempt = MAX_RETRIES then ((None, None), w1)
            else fetch_loop e url (attempt + 1) (wait * BACKOFF_FACTOR)
                   (w1\<lparr>events := events w1 @ [Sleep wait]\<rparr>))"
  by pat_completeness auto
termination
  by (relation "measure (\<lambda>(e, url, attempt, wait, w). Suc MAX_RETRIES - attempt)") auto

declare fetch_loop.simps [simp del]

definition fetch_url :: "env \<Rightarrow> pystr \<Rightarrow> world \<Rightarrow> (int option \<times> pystr option) \<times> world" where
  "fetch_url e url w = fetch_loop e url 1 1 w"

section \<open>extract_text_from_html\<close>

text \<open>\<open>re.sub(r'\s+', ' ', text)\<close>\<close>

function collapse_ws :: "pystr \<Rightarrow> pystr" where
  "collapse_ws [] = []"
| "collapse_ws (c # cs) =
     (if py_isspace c then 32 # collapse_ws (dropWhile py_isspace cs) else c # collapse_ws cs)"
  by pat_completeness auto
termination
  by (relation "measure length") (auto simp: less_Suc_eq_le length_dropWhile_le)

definition extract_text_from_html :: "env \<Rightarrow> pystr \<Rightarrow> pystr" where
  "extract_text_from_html e html = collapse_ws (soup_get_text e html)"

section \<open>is_likely_recipe\<close>

definition kw_ingredient :: pystr where
  "kw_ingredient = [1080, 1085, 1075, 1088, 1077, 1076, 1080, 1077, 1085, 1090]"

definition kw_recipe :: pystr where
  "kw_recipe = [1088, 1077, 1094, 1077, 1087, 1090]"

definition kw_preparation :: pystr where
  "kw_preparation = [1087, 1088, 1080, 1075, 1086, 1090, 1086, 1074, 1083, 1077, 1085, 1080, 1077]"

definition has_keyword :: "pystr \<Rightarrow> bool" where
  "has_keyword lower \<longleftrightarrow>
     contains kw_ingredient lower \<or> contains kw_recipe lower \<or> contains kw_preparation lower"

definition is_likely_recipe :: "env \<Rightarrow> pystr \<Rightarrow> pystr \<Rightarrow> bool" where
  "is_likely_recipe e html site_key =
     (if html = [] then False
      else if length html < 800 then False
      else
        let lower = str_lower e html in
        if site_key = povarenok then
          (if has_keyword lower then True else length lower > 2000)
        else if site_key = koolinar then
          (if has_keyword lower then True else length lower > 2000)
        else length lower > 2000)"

section \<open>collect_for_site\<close>

text \<open>
  The paths under \<open>OUTPUT_DIR\<close>. The progress bar and the progress messages of the
  function are left out: they change nothing the function reads.
\<close>

definition site_dir :: "pystr \<Rightarrow> pystr" where
  "site_dir site_key = ascii ''recipes_corpus/'' @ site_key"

definition raw_path :: "pystr \<Rightarrow> int \<Rightarrow> pystr" where
  "raw_path site_key i = site_dir site_key @ ascii ''/raw/'' @ str_int i @ ascii ''.html''"

definition text_path :: "pystr \<Rightarrow> int \<Rightarrow> pystr" where
  "text_path site_key i = site_dir site_key @ ascii ''/text/'' @ str_int i @ ascii ''.txt''"

definition meta_file :: "pystr \<Rightarrow> pystr" where
  "meta_file site_key = site_dir site_key @ ascii ''/meta/meta.jsonl''"

text \<open>
  \<open>for line in mf\<close> on a file opened in text mode: the lines of the content, each with
  its end, where \<open>\r\n\<close> and \<open>\r\<close> are read as \<open>\n\<close>. \<open>cur\<close> is the line read so far.
\<close>

definition skip_lf :: "pystr \<Rightarrow> pystr" where
  "skip_lf cs = (case cs of [] \<Rightarrow> [] | d # ds \<Rightarrow> if d = 10 then ds else cs)"

function readlines :: "pystr \<Rightarrow> pystr \<Rightarrow> pystr list" where
  "readlines cur [] = (if cur = [] then [] else [cur])"
| "readlines cur (c # cs) =
     (if c = 10 then (cur @ [10]) # readlines [] cs
      else if c = 13 then (cur @ [10]) # readlines [] (skip_lf cs)
      else readlines (cur @ [c]) cs)"
  by pat_completeness auto
termination
  by (relation "measure (\<lambda>(cur, s). length s)")
     (auto simp: skip_lf_def less_Suc_eq_le split: list.splits)

text \<open>
  The body of the loop over the lines of the ledger: \<open>json.loads\<close>, \<open>obj["id"]\<close>
  and \<open>seen_ids.add\<close> may each raise, which ends the load.
\<close>

fun load_lines ::
  "env \<Rightarrow> pystr list \<Rightarrow> pyval set \<times> pyval list \<Rightarrow> py_error + (pyval set \<times> pyval list)" where
  "load_lines e [] acc = Inr acc"
| "load_lines e (line # ls) (seen_ids, metadata) =
     (case json_loads e line of
        Inl err \<Rightarrow> Inl err
      | Inr obj \<Rightarrow>
          (case getitem_id obj of
             Inl err \<Rightarrow> Inl err
           | Inr v \<Rightarrow>
               (case hkey v of
                  None \<Rightarrow> Inl TypeError
                | Some k \<Rightarrow> load_lines e ls (insert k seen_ids, metadata @ [obj]))))"

definition load_meta :: "env \<Rightarrow> pystr \<Rightarrow> world \<Rightarrow> py_error + (pyval set \<times> pyval list)" where
  "load_meta e site_key w =
     (case files w (meta_file site_key) of
        None \<Rightarrow> Inr ({}, [])
      | Some content \<Rightarrow> load_lines e (readlines [] content) ({}, []))"

text \<open>\<open>with open(meta_file, "a") as mf: mf.write(json.dumps(meta) + "\n")\<close>\<close>

definition append_meta :: "env \<Rightarrow> pystr \<Rightarrow> pyval \<Rightarrow> world \<Rightarrow> world" where
  "append_meta e site_key meta w =
     w\<lparr>files := (files w)(meta_file site_key \<mapsto>
         (case files w (meta_file site_key) of None \<Rightarrow> [] | Some content \<Rightarrow> content)
           @ json_dumps e meta @ [10])\<rparr>"

text \<open>
  \<open>save_file\<close> and \<open>save_text_file\<close> with data that can be written, and what
  \<open>open(path, "w")\<close> or \<open>open(path, "a")\<close> alone leaves when the write raises: the
  file emptied, or the file as it was (empty if it was missing).
\<close>

definition save_file :: "pystr \<Rightarrow> pystr \<Rightarrow> world \<Rightarrow> world" where
  "save_file path data w = w\<lparr>files := (files w)(path \<mapsto> data)\<rparr>"

definition save_text_file :: "pystr \<Rightarrow> pystr \<Rightarrow> world \<Rightarrow> world" where
  "save_text_file path data w = w\<lparr>files := (files w)(path \<mapsto> data)\<rparr>"

definition open_append :: "pystr \<Rightarrow> world \<Rightarrow> world" where
  "open_append path w =
     w\<lparr>files := (files w)(path \<mapsto> (case files w path of None \<Rightarrow> [] | Some content \<Rightarrow> content))\<rparr>"

text \<open>The variables of the loop, and the world.\<close>

record walk_state =
  seen_ids :: "pyval set"
  metadata :: "pyval list"
  current_id :: int
  attempts :: nat
  sys :: world

definition make_meta :: "env \<Rightarrow> pystr \<Rightarrow> int \<Rightarrow> pystr \<Rightarrow> int \<Rightarrow> pystr \<Rightarrow> pyval" where
  "make_meta e site_key cid url status body =
     (let text = extract_text_from_html e body in
      PDict [(ascii ''id'', PInt cid),
             (ascii ''url'', PStr url),
             (ascii ''raw_path'', PStr (raw_path site_key cid)),
             (ascii ''text_path'', PStr (text_path site_key cid)),
             (ascii ''raw_size_bytes'', PInt (int (utf8_size body))),
             (ascii ''text_size_bytes'', PInt (int (utf8_size text))),
             (ascii ''word_count'', PInt (int (word_count text))),
             (ascii ''status_code'', PInt status)])"

text \<open>
  The branch taken when the page is a recipe: the two files, the record, the ledger.
  \<open>body.encode("utf-8")\<close>, the write of the text and the write of the ledger line
  raise \<open>UnicodeEncodeError\<close> on a lone surrogate; \<open>Inl\<close> holds the error and the
  variables as the exception leaves them.
\<close>

definition persist ::
  "env \<Rightarrow> pystr \<Rightarrow> pystr \<Rightarrow> int \<Rightarrow> pystr \<Rightarrow> walk_state \<Rightarrow> (py_error \<times> walk_state) + walk_state" where
  "persist e site_key url status body st =
     (let cid = current_id st in
      if \<not> utf8_ok body then Inl (UnicodeEncodeError, st)
      else
        let w1 = save_file (raw_path site_key cid) body (sys st);
            text = extract_text_from_html e body
        in
        if \<not> utf8_ok text
        then Inl (UnicodeEncodeError, st\<lparr>sys := save_text_file (text_path site_key cid) [] w1\<rparr>)
        else
          let w2 = save_text_file (text_path site_key cid) text w1;
              meta = make_meta e site_key cid url status body;
              st2 = st\<lparr>metadata := metadata st @ [meta],
                       seen_ids := insert (PInt cid) (seen_ids st),
                       sys := w2\<rparr>
          in
          if \<not> utf8_ok (json_dumps e meta)
          then Inl (UnicodeEncodeError, st2\<lparr>sys := open_append (meta_file site_key) w2\<rparr>)
          else Inr (st2\<lparr>sys := append_meta e site_key meta w2\<rparr>))"

text \<open>\<open>status == 200 and body\<close>, then \<open>is_likely_recipe(body, site_key)\<close>.\<close>

definition accepted :: "env \<Rightarrow> pystr \<Rightarrow> int option \<times> pystr option \<Rightarrow> bool" where
  "accepted e site_key r =
     (case r of
        (Some status, Some body) \<Rightarrow> status = 200 \<and> body \<noteq> [] \<and> is_likely_recipe e body site_key
      | _ \<Rightarrow> False)"

text \<open>\<open>time.sleep(random.uniform(*DELAY_BETWEEN_REQUESTS))\<close>\<close>

definition throttle :: "env \<Rightarrow> world \<Rightarrow> world" where
  "throttle e w = w\<lparr>draws := draws w + 1, events := events w @ [Sleep (random_uniform e (draws w))]\<rparr>"

text \<open>One pass through the body of the \<open>while\<close> loop.\<close>

definition loop_body ::
  "env \<Rightarrow> pystr \<Rightarrow> site_cfg \<Rightarrow> walk_state \<Rightarrow> (py_error \<times> walk_state) + walk_state" where
  "loop_body e site_key cfg st =
     (let cid = current_id st; url = pattern cfg cid in
      if PInt cid \<in> seen_ids st then Inr (st\<lparr>current_id := cid + step cfg\<rparr>)
      else
        let (r, w1) = fetch_url e url (sys st);
            st1 = st\<lparr>attempts := attempts st + 1, sys := w1\<rparr>
        in
        if accepted e site_key r
        then (case persist e site_key url (the (fst r)) (the (snd r)) st1 of
                Inl raised \<Rightarrow> Inl raised
              | Inr st2 \<Rightarrow> Inr (st2\<lparr>sys := throttle e (sys st2), current_id := cid + step cfg\<rparr>))
        else Inr (st1\<lparr>sys := throttle e (sys st1), current_id := cid + step cfg\<rparr>))"

text \<open>
  \<open>while len(seen_ids) < TARGET_PER_SITE\<close>, with the target as an argument. The loop
  has no other exit, so it need not return; a pass that raises ends it.
\<close>

partial_function (option) walk_loop ::
  "env \<Rightarrow> nat \<Rightarrow> pystr \<Rightarrow> site_cfg \<Rightarrow> walk_state \<Rightarrow> ((py_error \<times> walk_state) + walk_state) option" where
  "walk_loop e target site_key cfg st =
     (if card (seen_ids st) < target
      then (case loop_body e site_key cfg st of
              Inl raised \<Rightarrow> Some (Inl raised)
            | Inr st' \<Rightarrow> walk_loop e target site_key cfg st')
      else Some (Inr st))"

text \<open>
  The variables after at most \<open>n\<close> passes of the same loop; a pass that raises is not
  counted, and nothing follows it.
\<close>

fun walk_n :: "env \<Rightarrow> nat \<Rightarrow> pystr \<Rightarrow> site_cfg \<Rightarrow> nat \<Rightarrow> walk_state \<Rightarrow> walk_state" where
  "walk_n e target site_key cfg 0 st = st"
| "walk_n e target site_key cfg (Suc n) st =
     (if card (seen_ids st) < target
      then (case loop_body e site_key cfg st of
              Inl raised \<Rightarrow> st
            | Inr st' \<Rightarrow> walk_n e target site_key cfg n st')
      else st)"

definition init_state :: "site_cfg \<Rightarrow> pyval set \<times> pyval list \<Rightarrow> world \<Rightarrow> walk_state" where
  "init_state cfg loaded w =
     \<lparr>seen_ids = fst loaded, metadata = snd loaded, current_id = start_id cfg, attempts = 0, sys = w\<rparr>"

text \<open>
  The run of one site, to the variables at the end of the loop: \<open>Inl\<close> when loading
  the ledger raised (the exception leaves the function before the loop) or when a
  pass raised, \<open>None\<close> when the loop does not end.
\<close>

definition collect_run ::
  "env \<Rightarrow> nat \<Rightarrow> pystr \<Rightarrow> site_cfg \<Rightarrow> world \<Rightarrow> (py_error + walk_state) option" where
  "collect_run e target site_key cfg w =
     (case load_meta e site_key w of
        Inl err \<Rightarrow> Some (Inl err)
      | Inr loaded \<Rightarrow>
          map_option (\<lambda>r. case r of Inl (err, st) \<Rightarrow> Inl err | Inr st \<Rightarrow> Inr st)
            (walk_loop e target site_key cfg (init_state cfg loaded w)))"

text \<open>What \<open>collect_for_site\<close> returns (\<open>metadata\<close>) or raises, and the world it leaves.\<close>

definition collect_for_site ::
  "env \<Rightarrow> nat \<Rightarrow> pystr \<Rightarrow> site_cfg \<Rightarrow> world \<Rightarrow> ((py_error + pyval list) \<times> world) option" where
  "collect_for_site e target site_key cfg w =
     (case load_meta e site_key w of
        Inl err \<Rightarrow> Some (Inl err, w)
      | Inr loaded \<Rightarrow>
          map_option (\<lambda>r. case r of Inl (err, st) \<Rightarrow> (Inl err, sys st)
                                  | Inr st \<Rightarrow> (Inr (metadata st), sys st))
            (walk_loop e target site_key cfg (init_state cfg loaded w)))"

section \<open>Vocabulary of the properties\<close>

text \<open>The element of \<open>seen_ids\<close> a record stands for, when it has one.\<close>

definition rec_key :: "pyval \<Rightarrow> pyval option" where
  "rec_key obj = (case getitem_id obj of Inl err \<Rightarrow> None | Inr v \<Rightarrow> hkey v)"

text \<open>The content of the ledger (empty when the file is missing), and the line of a record.\<close>

definition ledger_text :: "pystr \<Rightarrow> world \<Rightarrow> pystr" where
  "ledger_text site_key w =
     (case files w (meta_file site_key) of None \<Rightarrow> [] | Some content \<Rightarrow> content)"

definition ledger_line :: "env \<Rightarrow> pyval \<Rightarrow> pystr" where
  "ledger_line e meta = json_dumps e meta @ [10]"

text \<open>
  The result of the fetch of the current identifier, whether the pass takes the page
  as a document, and the record it then adds.
\<close>

definition fetched :: "env \<Rightarrow> site_cfg \<Rightarrow> walk_state \<Rightarrow> (int option \<times> pystr option) \<times> world" where
  "fetched e cfg st = fetch_url e (pattern cfg (current_id st)) (sys st)"

definition takes :: "env \<Rightarrow> pystr \<Rightarrow> site_cfg \<Rightarrow> walk_state \<Rightarrow> bool" where
  "takes e site_key cfg st \<longleftrightarrow>
     PInt (current_id st) \<notin> seen_ids st \<and> accepted e site_key (fst (fetched e cfg st))"

definition new_meta :: "env \<Rightarrow> pystr \<Rightarrow> site_cfg \<Rightarrow> walk_state \<Rightarrow> pyval" where
  "new_meta e site_key cfg st =
     make_meta e site_key (current_id st) (pattern cfg (current_id st))
       (the (fst (fst (fetched e cfg st)))) (the (snd (fst (fetched e cfg st))))"

text \<open>
  \<open>extends e site_key st r new\<close>: from \<open>st\<close> to \<open>r\<close> the run has added the records
  \<open>new\<close>, one ledger line each, with identifiers that are new and differ from each other.
\<close>

definition extends :: "env \<Rightarrow> pystr \<Rightarrow> walk_state \<Rightarrow> walk_state \<Rightarrow> pyval list \<Rightarrow> bool" where
  "extends e site_key st r new \<longleftrightarrow>
     metadata r = metadata st @ new
     \<and> seen_ids r = seen_ids st \<union> the ` rec_key ` set new
     \<and> (\<forall>m\<in>set new. rec_key m \<noteq> None \<and> the (rec_key m) \<notin> seen_ids st)
     \<and> distinct (map rec_key new)
     \<and> ledger_text site_key (sys r) = ledger_text site_key (sys st) @ concat (map (ledger_line e) new)"

text \<open>
  The verdicts on the first \<open>n\<close> candidates from \<open>cid\<close> on, fetched one after the
  other when \<open>g\<close> requests have been sent before: \<open>True\<close> where the page is taken
  as a document.
\<close>

definition probe :: "nat \<Rightarrow> world" where
  "probe g = \<lparr>gets = g, draws = 0, events = [], files = Map.empty\<rparr>"

fun verdicts :: "env \<Rightarrow> pystr \<Rightarrow> site_cfg \<Rightarrow> nat \<Rightarrow> int \<Rightarrow> nat \<Rightarrow> bool list" where
  "verdicts e site_key cfg g cid 0 = []"
| "verdicts e site_key cfg g cid (Suc n) =
     (let (r, w1) = fetch_url e (pattern cfg cid) (probe g)
      in accepted e site_key r # verdicts e site_key cfg (gets w1) (cid + step cfg) n)"

text \<open>
  Whether the page of an accepted candidate, its text and its ledger line can be
  written (no \<open>UnicodeEncodeError\<close>), for one pass and for every accepted one of the
  first \<open>n\<close> candidates.
\<close>

definition writes_ok :: "env \<Rightarrow> pystr \<Rightarrow> int \<Rightarrow> pystr \<Rightarrow> int \<Rightarrow> pystr \<Rightarrow> bool" where
  "writes_ok e site_key cid url status body \<longleftrightarrow>
     utf8_ok body \<and> utf8_ok (extract_text_from_html e body)
     \<and> utf8_ok (json_dumps e (make_meta e site_key cid url status body))"

definition pass_writes :: "env \<Rightarrow> pystr \<Rightarrow> site_cfg \<Rightarrow> walk_state \<Rightarrow> bool" where
  "pass_writes e site_key cfg st \<longleftrightarrow>
     writes_ok e site_key (current_id st) (pattern cfg (current_id st))
       (the (fst (fst (fetched e cfg st)))) (the (snd (fst (fetched e cfg st))))"

fun writes :: "env \<Rightarrow> pystr \<Rightarrow> site_cfg \<Rightarrow> nat \<Rightarrow> int \<Rightarrow> nat \<Rightarrow> bool" where
  "writes e site_key cfg g cid 0 = True"
| "writes e site_key cfg g cid (Suc n) =
     (let (r, w1) = fetch_url e (pattern cfg cid) (probe g)
      in (if accepted e site_key r
          then writes_ok e site_key cid (pattern cfg cid) (the (fst r)) (the (snd r)) else True)
         \<and> writes e site_key cfg (gets w1) (cid + step cfg) n)"

text \<open>
  The DocumentRecord of a page, field by field, and the records of the accepted among
  the first \<open>n\<close> candidates, in the order of the walk.
\<close>

definition document_record :: "pystr \<Rightarrow> int \<Rightarrow> pystr \<Rightarrow> pystr \<Rightarrow> pystr \<Rightarrow> pyval" where
  "document_record site_key cid url body txt =
     PDict [(ascii ''id'', PInt cid),
            (ascii ''url'', PStr url),
            (ascii ''raw_path'', PStr (raw_path site_key cid)),
            (ascii ''text_path'', PStr (text_path site_key cid)),
            (ascii ''raw_size_bytes'', PInt (int (utf8_size body))),
            (ascii ''text_size_bytes'', PInt (int (utf8_size txt))),
            (ascii ''word_count'', PInt (int (word_count txt))),
            (ascii ''status_code'', PInt 200)]"

fun harvest :: "env \<Rightarrow> pystr \<Rightarrow> site_cfg \<Rightarrow> nat \<Rightarrow> int \<Rightarrow> nat \<Rightarrow> pyval list" where
  "harvest e site_key cfg g cid 0 = []"
| "harvest e site_key cfg g cid (Suc n) =
     (let (r, w1) = fetch_url e (pattern cfg cid) (probe g)
      in (if accepted e site_key r
          then [document_record site_key cid (pattern cfg cid) (the (snd r))
                  (extract_text_from_html e (the (snd r)))]
          else [])
         @ harvest e site_key cfg (gets w1) (cid + step cfg) n)"

text \<open>
  \<open>reloads e m\<close>: the line written for the record \<open>m\<close> holds no raw line break and
  loads back as a record with the identifier of \<open>m\<close>.
\<close>

definition reloads :: "env \<Rightarrow> pyval \<Rightarrow> bool" where
  "reloads e m \<longleftrightarrow>
     10 \<notin> set (json_dumps e m) \<and> 13 \<notin> set (json_dumps e m) \<and> rec_key m \<noteq> None
     \<and> (case json_loads e (ledger_line e m) of Inl err \<Rightarrow> False | Inr m' \<Rightarrow> rec_key m' = rec_key m)"

section \<open>Test doubles\<close>

text \<open>
  Stand-ins for the libraries, for running the definitions on concrete inputs:
  \<open>str.lower\<close> on ASCII and Cyrillic letters, and a network that answers the
  \<open>n\<close>-th request by \<open>script n\<close>.
\<close>

definition lower_cp :: "nat \<Rightarrow> nat" where
  "lower_cp c = (if (65 \<le> c \<and> c \<le> 90) \<or> (1040 \<le> c \<and> c \<le> 1071) then c + 32
                 else if 1024 \<le> c \<and> c \<le> 1039 then c + 80 else c)"

text \<open>
  A JSON codec for records that hold an identifier only: \<open>{"id": 12}\<close>.
\<close>

definition id_prefix :: pystr where
  "id_prefix = [123, 34, 105, 100, 34, 58, 32]"

definition parse_digits :: "pystr \<Rightarrow> nat option" where
  "parse_digits ds =
     (if ds \<noteq> [] \<and> list_all (\<lambda>c. 48 \<le> c \<and> c \<le> 57) ds
      then Some (foldl (\<lambda>a c. 10 * a + (c - 48)) 0 ds) else None)"

definition id_loads :: "pystr \<Rightarrow> py_error + pyval" where
  "id_loads line =
     (if starts_with id_prefix line \<and> 9 \<le> length line \<and> drop (length line - 2) line = [125, 10]
      then (case parse_digits (take (length line - 9) (drop 7 line)) of
              None \<Rightarrow> Inl JSONDecodeError
            | Some n \<Rightarrow> Inr (PDict [(ascii ''id'', PInt (int n))]))
      else Inl JSONDecodeError)"

definition id_dumps :: "pyval \<Rightarrow> pystr" where
  "id_dumps v =
     (case getitem_id v of
        Inr (PInt i) \<Rightarrow> id_prefix @ str_int i @ [125]
      | _ \<Rightarrow> ascii ''null'')"

definition mock_env :: "(nat \<Rightarrow> reply) \<Rightarrow> env" where
  "mock_env script =
     \<lparr>http_get = (\<lambda>n url. script n), str_lower = map lower_cp, soup_get_text = (\<lambda>html. html),
      json_loads = id_loads, json_dumps = id_dumps,
      random_uniform = (\<lambda>n. 1)\<rparr>"

definition offline :: "nat \<Rightarrow> reply" where
  "offline n = RequestException"

definition not_found :: "nat \<Rightarrow> reply" where
  "not_found n = Response 404 (ascii ''gone'')"

definition long_body :: pystr where
  "long_body = replicate 2001 97"

text \<open>A page that is long enough to be accepted and ends with a lone surrogate.\<close>

definition surrogate_body :: pystr where
  "surrogate_body = replicate 2000 97 @ [55296]"

definition surrogate_first :: "nat \<Rightarrow> reply" where
  "surrogate_first n =
     (if n = 0 then Response 200 surrogate_body
      else if n = 4 \<or> n = 7 then Response 200 long_body else Response 404 [])"

definition always_ok :: "nat \<Rightarrow> reply" where
  "always_ok n = Response 200 long_body"

definition three_of_ten :: "nat \<Rightarrow> reply" where
  "three_of_ten n = (if n = 1 \<or> n = 4 \<or> n = 7 then Response 200 long_body else Response 404 [])"

definition world0 :: world where
  "world0 = \<lparr>gets = 0, draws = 0, events = [], files = Map.empty\<rparr>"

definition corrupt_world :: world where
  "corrupt_world = world0\<lparr>files := [meta_file povarenok \<mapsto> ascii ''{oops'']\<rparr>"

definition other_site :: pystr where
  "other_site = ascii ''other''"


definition kw_body100 :: pystr where
  "kw_body100 = kw_recipe @ replicate 94 32"

definition kw_body800 :: pystr where
  "kw_body800 = kw_recipe @ replicate 794 32"

definition rec7 :: pyval where
  "rec7 = PDict [(ascii ''id'', PInt 7)]"

definition rec12 :: pyval where
  "rec12 = PDict [(ascii ''id'', PInt 12)]"

definition rec20000 :: pyval where
  "rec20000 = PDict [(ascii ''id'', PInt 20000)]"

definition resumed_world :: world where
  "resumed_world = append_meta (mock_env offline) povarenok rec20000 world0"

definition unseen_state :: walk_state where
  "unseen_state = init_state povarenok_cfg ({}, []) world0"

definition seen_state :: walk_state where
  "seen_state = init_state povarenok_cfg ({PInt 20000}, [rec20000]) resumed_world"

section \<open>fetch_url: retries and backoff\<close>

lemma fetch_loop_response:
  assumes "attempt \<le> MAX_RETRIES" and "http_get e (gets w) url = Response status text"
  shows "fetch_loop e url attempt wait w =
           ((Some status, Some text), w\<lparr>gets := gets w + 1, events := events w @ [Get url]\<rparr>)"
  using assms by (subst fetch_loop.simps) simp

lemma fetch_loop_files: "files (snd (fetch_loop e url attempt wait w)) = files w"
proof (induction e url attempt wait w rule: fetch_loop.induct)
  case (1 e url attempt wait w)
  then show ?case
    by (subst fetch_loop.simps) (auto simp: Let_def split: reply.splits)
qed

lemma fetch_loop_draws: "draws (snd (fetch_loop e url attempt wait w)) = draws w"
proof (induction e url attempt wait w rule: fetch_loop.induct)
  case (1 e url attempt wait w)
  then show ?case
    by (subst fetch_loop.simps) (auto simp: Let_def split: reply.splits)
qed

lemma fetch_url_files: "files (snd (fetch_url e url w)) = files w"
  by (simp add: fetch_url_def fetch_loop_files)

lemma fetch_url_draws: "draws (snd (fetch_url e url w)) = draws w"
  by (simp add: fetch_url_def fetch_loop_draws)

text \<open>
  C4. When every request for a URL raises a transport failure, \<open>fetch_url\<close> sends
  exactly \<open>MAX_RETRIES = 3\<close> requests, sleeps between consecutive requests, first
  \<open>1\<close> and then \<open>1 * BACKOFF_FACTOR\<close>, which is strictly longer, and returns
  \<open>(None, None)\<close>; it touches nothing else of the world.
\<close>

theorem fetch_url_all_fail:
  assumes "\<forall>k<MAX_RETRIES. http_get e (gets w + k) url = RequestException"
  shows "fetch_url e url w =
           ((None, None),
            w\<lparr>gets := gets w + MAX_RETRIES,
              events := events w @ [Get url, Sleep 1, Get url, Sleep (1 * BACKOFF_FACTOR), Get url]\<rparr>)
         \<and> (1::rat) < 1 * BACKOFF_FACTOR"
proof -
  have k0: "http_get e (gets w) url = RequestException"
    using assms by (auto simp: MAX_RETRIES_def dest: spec [of _ 0])
  have k1: "http_get e (Suc (gets w)) url = RequestException"
    using assms by (auto simp: MAX_RETRIES_def dest: spec [of _ 1])
  have k2: "http_get e (Suc (Suc (gets w))) url = RequestException"
    using assms by (auto simp: MAX_RETRIES_def dest: spec [of _ 2])
  show ?thesis
    by (simp add: fetch_url_def fetch_loop.simps MAX_RETRIES_def BACKOFF_FACTOR_def k0 k1 k2)
qed

theorem fetch_url_all_fail_witness:
  "fetch_url (mock_env offline) (ascii ''u'') world0 =
     ((None, None),
      \<lparr>gets = 3, draws = 0,
       events = [Get (ascii ''u''), Sleep 1, Get (ascii ''u''), Sleep (3 / 2), Get (ascii ''u'')],
       files = Map.empty\<rparr>)"
  using fetch_url_all_fail [of "mock_env offline" world0 "ascii ''u''"]
  by (simp add: mock_env_def offline_def world0_def MAX_RETRIES_def BACKOFF_FACTOR_def)

text \<open>
  C7. A request that is answered, whatever the status (so also one that is not 2xx),
  ends \<open>fetch_url\<close> at once: it returns the status and the text as they are, after
  that single request and with no sleep. Only \<open>RequestException\<close> reaches the retry.
\<close>

theorem fetch_url_response:
  assumes "http_get e (gets w) url = Response status text"
  shows "fetch_url e url w =
           ((Some status, Some text), w\<lparr>gets := gets w + 1, events := events w @ [Get url]\<rparr>)"
  unfolding fetch_url_def using assms by (intro fetch_loop_response) (simp_all add: MAX_RETRIES_def)

theorem fetch_url_response_witness:
  "fetch_url (mock_env not_found) (ascii ''u'') world0 =
     ((Some 404, Some (ascii ''gone'')),
      \<lparr>gets = 1, draws = 0, events = [Get (ascii ''u'')], files = Map.empty\<rparr>)"
  using fetch_url_response [of "mock_env not_found" world0 "ascii ''u''" 404 "ascii ''gone''"]
  by (simp add: mock_env_def not_found_def world0_def)

section \<open>is_likely_recipe: thresholds\<close>








text \<open>
  C1, as stated, fails: a body of length 100 that contains the keyword for "recipe" is
  rejected for the site \<open>povarenok\<close>, because the length floor is tested before the
  keywords. And the keywords are looked for under the two known site keys only: for
  another site key a body of length 800 with the keyword is rejected too.
\<close>

theorem keyword_body100_rejected:
  "length kw_body100 = 100 \<and> has_keyword (str_lower (mock_env offline) kw_body100)
   \<and> \<not> is_likely_recipe (mock_env offline) kw_body100 povarenok
   \<and> length kw_body800 = 800 \<and> has_keyword (str_lower (mock_env offline) kw_body800)
   \<and> \<not> is_likely_recipe (mock_env offline) kw_body800 other_site"
  by (simp add: kw_body100_def kw_body800_def kw_recipe_def has_keyword_def mock_env_def
        lower_cp_def is_likely_recipe_def other_site_def povarenok_def koolinar_def ascii_def)

text \<open>
  C1, amended. For every site key a body shorter than 800 is rejected, keyword or not;
  a keyword classifies as positive a body of length at least 800, for the site keys
  \<open>povarenok\<close> and \<open>koolinar\<close>.
\<close>

theorem keyword_after_length_floor:
  "(length html < 800 \<longrightarrow> \<not> is_likely_recipe e html site_key)
   \<and> (800 \<le> length html \<and> has_keyword (str_lower e html)
        \<and> (site_key = povarenok \<or> site_key = koolinar)
        \<longrightarrow> is_likely_recipe e html site_key)"
  by (auto simp: is_likely_recipe_def Let_def)

theorem keyword_after_length_floor_witness:
  "\<not> is_likely_recipe (mock_env offline) kw_body100 povarenok
   \<and> is_likely_recipe (mock_env offline) kw_body800 koolinar"
proof -
  have a: "length kw_body100 < 800"
    by (simp add: kw_body100_def kw_recipe_def)
  have b: "800 \<le> length kw_body800"
    by (simp add: kw_body800_def kw_recipe_def)
  have c: "has_keyword (str_lower (mock_env offline) kw_body800)"
    by (simp add: kw_body800_def kw_recipe_def has_keyword_def mock_env_def lower_cp_def)
  show ?thesis
    using keyword_after_length_floor [of kw_body100 "mock_env offline" povarenok]
      keyword_after_length_floor [of kw_body800 "mock_env offline" koolinar] a b c
    by blast
qed

section \<open>The ledger\<close>

lemma load_lines_error:
  "line \<in> set ls \<Longrightarrow> json_loads e line = Inl err \<Longrightarrow> \<exists>err'. load_lines e ls acc = Inl err'"
proof (induction ls arbitrary: acc)
  case Nil
  then show ?case by simp
next
  case (Cons l ls)
  obtain seen md where acc: "acc = (seen, md)" by (cases acc)
  show ?case
  proof (cases "l = line")
    case True
    then show ?thesis using Cons.prems acc by simp
  next
    case False
    then have "line \<in> set ls" using Cons.prems by simp
    from Cons.IH [OF this Cons.prems(2)] show ?thesis
      by (auto simp: acc split: sum.splits option.splits)
  qed
qed

text \<open>
  C9. When the ledger exists and \<open>json.loads\<close> raises on one of its lines, the load
  raises: \<open>collect_for_site\<close> ends with an error before the loop, and leaves the
  world as it found it (no request, no sleep, no file written). The line is not
  skipped: there is no result with a partial \<open>seen_ids\<close>.
\<close>

theorem ledger_corruption_aborts:
  assumes "files w (meta_file site_key) = Some content"
    and "line \<in> set (readlines [] content)"
    and "json_loads e line = Inl err"
  shows "\<exists>err'. load_meta e site_key w = Inl err'
           \<and> collect_run e target site_key cfg w = Some (Inl err')
           \<and> collect_for_site e target site_key cfg w = Some (Inl err', w)"
proof -
  obtain err' where "load_lines e (readlines [] content) ({}, []) = Inl err'"
    using load_lines_error [OF assms(2,3)] by blast
  then have "load_meta e site_key w = Inl err'"
    using assms(1) by (simp add: load_meta_def)
  then show ?thesis
    by (simp add: collect_run_def collect_for_site_def)
qed

theorem ledger_corruption_aborts_witness:
  "\<exists>err'. collect_for_site (mock_env offline) TARGET_PER_SITE povarenok povarenok_cfg corrupt_world
      = Some (Inl err', corrupt_world)"
proof -
  have a: "files corrupt_world (meta_file povarenok) = Some (ascii ''{oops'')"
    by (simp add: corrupt_world_def)
  have b: "ascii ''{oops'' \<in> set (readlines [] (ascii ''{oops''))"
    by (simp add: ascii_def)
  have c: "json_loads (mock_env offline) (ascii ''{oops'') = Inl JSONDecodeError"
    by (simp add: mock_env_def id_loads_def id_prefix_def ascii_def)
  show ?thesis
    using ledger_corruption_aborts [OF a b c, of TARGET_PER_SITE povarenok_cfg] by blast
qed

lemma readlines_line:
  "10 \<notin> set l \<Longrightarrow> 13 \<notin> set l \<Longrightarrow>
     readlines cur (l @ 10 # rest) = (cur @ l @ [10]) # readlines [] rest"
  by (induction l arbitrary: cur) auto

lemma readlines_ledger_lines:
  assumes "\<forall>m\<in>set ms. 10 \<notin> set (json_dumps e m) \<and> 13 \<notin> set (json_dumps e m)"
  shows "readlines [] (concat (map (ledger_line e) ms)) = map (ledger_line e) ms"
  using assms
proof (induction ms)
  case Nil
  then show ?case by simp
next
  case (Cons m ms)
  let ?rest = "concat (map (ledger_line e) ms)"
  have "readlines [] (json_dumps e m @ 10 # ?rest)
          = ([] @ json_dumps e m @ [10]) # readlines [] ?rest"
    using Cons.prems by (intro readlines_line) simp_all
  moreover have "ledger_line e m @ ?rest = json_dumps e m @ 10 # ?rest"
    and "ledger_line e m = json_dumps e m @ [10]"
    by (simp_all add: ledger_line_def)
  moreover have "readlines [] ?rest = map (ledger_line e) ms"
    using Cons by simp
  ultimately show ?case
    by simp
qed

lemma load_meta_ledger_text:
  "load_meta e site_key w = load_lines e (readlines [] (ledger_text site_key w)) ({}, [])"
  by (simp add: load_meta_def ledger_text_def split: option.splits)

lemma ledger_text_append_meta:
  "ledger_text site_key (append_meta e site_key m w) = ledger_text site_key w @ ledger_line e m"
  by (simp add: ledger_text_def append_meta_def ledger_line_def)

lemma ledger_text_appends:
  "ledger_text site_key (foldl (\<lambda>w m. append_meta e site_key m w) w ms)
     = ledger_text site_key w @ concat (map (ledger_line e) ms)"
  by (induction ms arbitrary: w) (simp_all add: ledger_text_append_meta)

lemma load_lines_records:
  assumes "\<forall>m\<in>set ms. json_loads e (ledger_line e m) = Inr m \<and> rec_key m \<noteq> None"
  shows "load_lines e (map (ledger_line e) ms) (seen, md)
           = Inr (seen \<union> the ` rec_key ` set ms, md @ ms)"
  using assms
proof (induction ms arbitrary: seen md)
  case Nil
  then show ?case by simp
next
  case (Cons m ms)
  from Cons.prems obtain k where k: "rec_key m = Some k"
    by auto
  then obtain v where v: "getitem_id m = Inr v" "hkey v = Some k"
    by (auto simp: rec_key_def split: sum.splits)
  have "load_lines e (map (ledger_line e) (m # ms)) (seen, md)
          = load_lines e (map (ledger_line e) ms) (insert k seen, md @ [m])"
    using Cons.prems v by simp
  also have "\<dots> = Inr (insert k seen \<union> the ` rec_key ` set ms, (md @ [m]) @ ms)"
    using Cons.prems by (intro Cons.IH) simp
  finally show ?case
    using k by simp
qed

lemma card_rec_keys:
  assumes "\<forall>m\<in>set ms. rec_key m \<noteq> None" and "distinct (map rec_key ms)"
  shows "card (the ` rec_key ` set ms) = length ms"
proof -
  have "inj_on (\<lambda>m. the (rec_key m)) (set ms)"
  proof (rule inj_onI)
    fix a b
    assume ab: "a \<in> set ms" "b \<in> set ms" "the (rec_key a) = the (rec_key b)"
    then have "rec_key a = rec_key b"
      using assms(1) by (metis option.expand)
    then show "a = b"
      using assms(2) ab(1,2) by (meson distinct_map inj_onD)
  qed
  then have "card ((\<lambda>m. the (rec_key m)) ` set ms) = card (set ms)"
    by (rule card_image)
  moreover have "distinct ms"
    using assms(2) by (simp add: distinct_map)
  ultimately show ?thesis
    by (simp add: distinct_card image_image)
qed

text \<open>
  C3. Loading a ledger that does not exist gives the empty state. After the records
  \<open>ms\<close> are appended to a ledger that did not exist, a load gives back exactly
  these records, in order, and the set of their identifiers, which has as many members
  as there are records when the identifiers are distinct. This uses of \<open>json\<close> that
  a dumped record has no raw line break and loads back as itself, and of each record
  that its \<open>"id"\<close> is hashable.
\<close>

theorem ledger_roundtrip:
  "(files w (meta_file site_key) = None \<longrightarrow> load_meta e site_key w = Inr ({}, []))
   \<and> (files w (meta_file site_key) = None
        \<and> (\<forall>m\<in>set ms. 10 \<notin> set (json_dumps e m) \<and> 13 \<notin> set (json_dumps e m)
               \<and> json_loads e (json_dumps e m @ [10]) = Inr m \<and> rec_key m \<noteq> None)
        \<and> distinct (map rec_key ms)
      \<longrightarrow> load_meta e site_key (foldl (\<lambda>w m. append_meta e site_key m w) w ms)
            = Inr (the ` rec_key ` set ms, ms)
          \<and> card (the ` rec_key ` set ms) = length ms)"
proof (intro conjI impI)
  assume "files w (meta_file site_key) = None"
  then show "load_meta e site_key w = Inr ({}, [])"
    by (simp add: load_meta_def)
next
  assume h: "files w (meta_file site_key) = None
        \<and> (\<forall>m\<in>set ms. 10 \<notin> set (json_dumps e m) \<and> 13 \<notin> set (json_dumps e m)
               \<and> json_loads e (json_dumps e m @ [10]) = Inr m \<and> rec_key m \<noteq> None)
        \<and> distinct (map rec_key ms)"
  then have "ledger_text site_key w = []"
    by (simp add: ledger_text_def)
  then have "ledger_text site_key (foldl (\<lambda>w m. append_meta e site_key m w) w ms)
               = concat (map (ledger_line e) ms)"
    by (simp add: ledger_text_appends)
  moreover have "readlines [] (concat (map (ledger_line e) ms)) = map (ledger_line e) ms"
    using h by (intro readlines_ledger_lines) simp
  moreover have "load_lines e (map (ledger_line e) ms) ({}, [])
                   = Inr ({} \<union> the ` rec_key ` set ms, [] @ ms)"
    using h by (intro load_lines_records) (simp add: ledger_line_def)
  ultimately show "load_meta e site_key (foldl (\<lambda>w m. append_meta e site_key m w) w ms)
            = Inr (the ` rec_key ` set ms, ms)"
    by (simp add: load_meta_ledger_text)
  show "card (the ` rec_key ` set ms) = length ms"
    using h by (intro card_rec_keys) simp_all
qed

lemma id_codec_rec7:
  "10 \<notin> set (id_dumps rec7) \<and> 13 \<notin> set (id_dumps rec7)
   \<and> id_loads (id_dumps rec7 @ [10]) = Inr rec7 \<and> rec_key rec7 = Some (PInt 7)"
  by (simp add: id_dumps_def rec7_def id_prefix_def str_int_def digits.simps id_loads_def
        parse_digits_def rec_key_def)

lemma id_codec_rec12:
  "10 \<notin> set (id_dumps rec12) \<and> 13 \<notin> set (id_dumps rec12)
   \<and> id_loads (id_dumps rec12 @ [10]) = Inr rec12 \<and> rec_key rec12 = Some (PInt 12)"
  by (simp add: id_dumps_def rec12_def id_prefix_def str_int_def digits.simps id_loads_def
        parse_digits_def rec_key_def)

theorem ledger_roundtrip_witness:
  "load_meta (mock_env offline) povarenok world0 = Inr ({}, [])
   \<and> load_meta (mock_env offline) povarenok
        (append_meta (mock_env offline) povarenok rec12
           (append_meta (mock_env offline) povarenok rec7 world0))
      = Inr ({PInt 7, PInt 12}, [rec7, rec12])"
proof -
  have a: "files world0 (meta_file povarenok) = None"
    by (simp add: world0_def)
  have b: "\<forall>m\<in>set [rec7, rec12].
             10 \<notin> set (json_dumps (mock_env offline) m) \<and> 13 \<notin> set (json_dumps (mock_env offline) m)
             \<and> json_loads (mock_env offline) (json_dumps (mock_env offline) m @ [10]) = Inr m
             \<and> rec_key m \<noteq> None"
    using id_codec_rec7 id_codec_rec12 by (simp add: mock_env_def)
  have c: "distinct (map rec_key [rec7, rec12])"
    using id_codec_rec7 id_codec_rec12 by simp
  show ?thesis
    using ledger_roundtrip [of world0 povarenok "mock_env offline" "[rec7, rec12]"] a b c
      id_codec_rec7 id_codec_rec12
    by auto
qed


section \<open>One pass of the loop\<close>

text \<open>
  C6. When the identifier is not in \<open>seen_ids\<close> and the fetch gives a status other
  than 200, no body, an empty body, or a body the classifier rejects, the pass changes
  the attempt counter and the current identifier, and the world by the fetch and the
  throttling sleep only: \<open>metadata\<close>, \<open>seen_ids\<close> and every file, the ledger
  among them, stay as they were.
\<close>

theorem rejected_attempt_frame:
  assumes "PInt (current_id st) \<notin> seen_ids st"
    and "fetch_url e (pattern cfg (current_id st)) (sys st) = ((status, body), w1)"
    and "status \<noteq> Some 200
         \<or> (case body of None \<Rightarrow> True | Some b \<Rightarrow> b = [] \<or> \<not> is_likely_recipe e b site_key)"
  shows "loop_body e site_key cfg st =
           Inr (st\<lparr>attempts := attempts st + 1,
                   current_id := current_id st + step cfg,
                   sys := w1\<lparr>draws := draws w1 + 1,
                             events := events w1 @ [Sleep (random_uniform e (draws w1))]\<rparr>\<rparr>)
         \<and> files w1 = files (sys st)"
proof -
  have "\<not> accepted e site_key (status, body)"
    using assms(3) by (auto simp: accepted_def split: option.splits)
  moreover have "files w1 = files (sys st)"
    using fetch_url_files [of e "pattern cfg (current_id st)" "sys st"] assms(2) by simp
  ultimately show ?thesis
    using assms(1,2) by (simp add: loop_body_def Let_def throttle_def)
qed

theorem rejected_attempt_frame_witness:
  "loop_body (mock_env not_found) povarenok povarenok_cfg unseen_state =
     Inr (unseen_state\<lparr>attempts := 1, current_id := 19999,
        sys := \<lparr>gets = 1, draws = 1,
                events = [Get (pattern povarenok_cfg 20000), Sleep 1], files = Map.empty\<rparr>\<rparr>)"
proof -
  have a: "PInt (current_id unseen_state) \<notin> seen_ids unseen_state"
    by (simp add: unseen_state_def init_state_def)
  have b: "fetch_url (mock_env not_found) (pattern povarenok_cfg (current_id unseen_state)) (sys unseen_state)
             = ((Some 404, Some (ascii ''gone'')),
                \<lparr>gets = 1, draws = 0, events = [Get (pattern povarenok_cfg 20000)], files = Map.empty\<rparr>)"
    by (simp add: unseen_state_def init_state_def world0_def fetch_url_def fetch_loop.simps
          MAX_RETRIES_def mock_env_def not_found_def povarenok_cfg_def)
  show ?thesis
    using rejected_attempt_frame [OF a b, of povarenok]
    by (simp add: unseen_state_def init_state_def povarenok_cfg_def mock_env_def)
qed

lemma meta_file_not_raw: "raw_path site_key i \<noteq> meta_file site_key"
  by (simp add: raw_path_def meta_file_def ascii_def)

lemma meta_file_not_text: "text_path site_key i \<noteq> meta_file site_key"
  by (simp add: text_path_def meta_file_def ascii_def)

lemma ledger_text_save_file:
  "path \<noteq> meta_file site_key \<Longrightarrow> ledger_text site_key (save_file path data w) = ledger_text site_key w"
  by (simp add: ledger_text_def save_file_def)

lemma ledger_text_save_text_file:
  "path \<noteq> meta_file site_key \<Longrightarrow>
     ledger_text site_key (save_text_file path data w) = ledger_text site_key w"
  by (simp add: ledger_text_def save_text_file_def)

lemma ledger_text_throttle: "ledger_text site_key (throttle e w) = ledger_text site_key w"
  by (simp add: ledger_text_def throttle_def)

lemma ledger_text_fetch_url: "ledger_text site_key (snd (fetch_url e url w)) = ledger_text site_key w"
  by (simp add: ledger_text_def fetch_url_files)

lemma rec_key_make_meta: "rec_key (make_meta e site_key cid url status body) = Some (PInt cid)"
  by (simp add: rec_key_def make_meta_def Let_def)

lemma make_meta_document_record:
  "make_meta e site_key cid url 200 body
     = document_record site_key cid url body (extract_text_from_html e body)"
  by (simp add: make_meta_def document_record_def Let_def)

text \<open>The branch of an accepted page either writes everything or raises.\<close>

lemma persist_writes:
  "writes_ok e site_key (current_id st) url status body \<Longrightarrow>
     persist e site_key url status body st =
       Inr (st\<lparr>metadata := metadata st @ [make_meta e site_key (current_id st) url status body],
               seen_ids := insert (PInt (current_id st)) (seen_ids st),
               sys := append_meta e site_key (make_meta e site_key (current_id st) url status body)
                        (save_text_file (text_path site_key (current_id st))
                           (extract_text_from_html e body)
                           (save_file (raw_path site_key (current_id st)) body (sys st)))\<rparr>)"
  by (simp add: persist_def writes_ok_def Let_def)

lemma persist_raises:
  "\<not> writes_ok e site_key (current_id st) url status body \<Longrightarrow>
     \<exists>st'. persist e site_key url status body st = Inl (UnicodeEncodeError, st')"
  by (auto simp: persist_def writes_ok_def Let_def)

lemma loop_body_skip:
  "PInt (current_id st) \<in> seen_ids st \<Longrightarrow>
     loop_body e site_key cfg st = Inr (st\<lparr>current_id := current_id st + step cfg\<rparr>)"
  by (simp add: loop_body_def Let_def)

lemma loop_body_returns:
  assumes "takes e site_key cfg st \<longrightarrow> pass_writes e site_key cfg st"
  shows "\<exists>st'. loop_body e site_key cfg st = Inr st'"
proof (cases "takes e site_key cfg st")
  case True
  then have "pass_writes e site_key cfg st"
    using assms by simp
  then show ?thesis
    using True
    by (simp add: loop_body_def Let_def split_beta takes_def pass_writes_def fetched_def
          persist_writes)
next
  case False
  then show ?thesis
    by (auto simp: loop_body_def Let_def split_beta takes_def fetched_def)
qed

lemma loop_body_raises:
  assumes "takes e site_key cfg st" and "\<not> pass_writes e site_key cfg st"
  shows "\<exists>st'. loop_body e site_key cfg st = Inl (UnicodeEncodeError, st')"
proof -
  let ?r = "fst (fetched e cfg st)"
  let ?st1 = "st\<lparr>attempts := attempts st + 1, sys := snd (fetched e cfg st)\<rparr>"
  have "\<not> writes_ok e site_key (current_id ?st1) (pattern cfg (current_id st)) (the (fst ?r)) (the (snd ?r))"
    using assms(2) by (simp add: pass_writes_def)
  from persist_raises [OF this] obtain st' where
    "persist e site_key (pattern cfg (current_id st)) (the (fst ?r)) (the (snd ?r)) ?st1
       = Inl (UnicodeEncodeError, st')"
    by blast
  then show ?thesis
    using assms(1) by (simp add: loop_body_def Let_def split_beta takes_def fetched_def)
qed

text \<open>What a pass that returns has changed.\<close>

lemma loop_body_Inr:
  assumes "loop_body e site_key cfg st = Inr st'"
  shows "seen_ids st' =
           (if takes e site_key cfg st then insert (PInt (current_id st)) (seen_ids st) else seen_ids st)"
    and "metadata st' =
           (if takes e site_key cfg st then metadata st @ [new_meta e site_key cfg st] else metadata st)"
    and "current_id st' = current_id st + step cfg"
    and "attempts st' = (if PInt (current_id st) \<in> seen_ids st then attempts st else attempts st + 1)"
    and "gets (sys st') =
           (if PInt (current_id st) \<in> seen_ids st then gets (sys st) else gets (snd (fetched e cfg st)))"
    and "ledger_text site_key (sys st') =
           (if takes e site_key cfg st
            then ledger_text site_key (sys st) @ ledger_line e (new_meta e site_key cfg st)
            else ledger_text site_key (sys st))"
    and "takes e site_key cfg st \<longrightarrow> pass_writes e site_key cfg st"
proof -
  have w: "takes e site_key cfg st \<longrightarrow> pass_writes e site_key cfg st"
    using assms loop_body_raises [of e site_key cfg st] by auto
  show "takes e site_key cfg st \<longrightarrow> pass_writes e site_key cfg st"
    by (rule w)
  have st': "st' =
     (if PInt (current_id st) \<in> seen_ids st then st\<lparr>current_id := current_id st + step cfg\<rparr>
      else if takes e site_key cfg st
      then st\<lparr>attempts := attempts st + 1,
              metadata := metadata st @ [new_meta e site_key cfg st],
              seen_ids := insert (PInt (current_id st)) (seen_ids st),
              sys := throttle e (append_meta e site_key (new_meta e site_key cfg st)
                       (save_text_file (text_path site_key (current_id st))
                          (extract_text_from_html e (the (snd (fst (fetched e cfg st)))))
                          (save_file (raw_path site_key (current_id st))
                             (the (snd (fst (fetched e cfg st)))) (snd (fetched e cfg st))))),
              current_id := current_id st + step cfg\<rparr>
      else st\<lparr>attempts := attempts st + 1, sys := throttle e (snd (fetched e cfg st)),
              current_id := current_id st + step cfg\<rparr>)"
  proof (cases "takes e site_key cfg st")
    case True
    then have "writes_ok e site_key (current_id st) (pattern cfg (current_id st))
        (the (fst (fst (fetched e cfg st)))) (the (snd (fst (fetched e cfg st))))"
      using w by (simp add: pass_writes_def)
    then show ?thesis
      using assms True
      by (simp add: loop_body_def Let_def split_beta takes_def fetched_def new_meta_def
            persist_writes)
  next
    case False
    then show ?thesis
      using assms
      by (auto simp: loop_body_def Let_def split_beta takes_def fetched_def)
  qed
  show "seen_ids st' =
           (if takes e site_key cfg st then insert (PInt (current_id st)) (seen_ids st) else seen_ids st)"
    and "metadata st' =
           (if takes e site_key cfg st then metadata st @ [new_meta e site_key cfg st] else metadata st)"
    and "current_id st' = current_id st + step cfg"
    and "attempts st' = (if PInt (current_id st) \<in> seen_ids st then attempts st else attempts st + 1)"
    unfolding st' by (simp_all add: takes_def)
  show "gets (sys st') =
           (if PInt (current_id st) \<in> seen_ids st then gets (sys st) else gets (snd (fetched e cfg st)))"
    unfolding st'
    by (simp add: throttle_def append_meta_def save_file_def save_text_file_def)
  show "ledger_text site_key (sys st') =
           (if takes e site_key cfg st
            then ledger_text site_key (sys st) @ ledger_line e (new_meta e site_key cfg st)
            else ledger_text site_key (sys st))"
    unfolding st'
    by (simp add: takes_def ledger_text_throttle ledger_text_append_meta ledger_text_save_file
          ledger_text_save_text_file meta_file_not_raw meta_file_not_text
          ledger_text_fetch_url fetched_def)
qed


section \<open>Runs of the loop\<close>

lemma extends_refl: "extends e site_key st st []"
  by (simp add: extends_def)

lemma extends_loop_body:
  assumes "loop_body e site_key cfg st = Inr st'"
  shows "extends e site_key st st'
     (if takes e site_key cfg st then [new_meta e site_key cfg st] else [])"
  using loop_body_Inr(1,2,6) [OF assms]
  by (simp add: extends_def new_meta_def rec_key_make_meta takes_def)

lemma extends_trans:
  assumes "extends e site_key st st1 a" and "extends e site_key st1 r b"
  shows "extends e site_key st r (a @ b)"
proof -
  have keys_a: "\<forall>m\<in>set a. the (rec_key m) \<in> seen_ids st1"
    using assms(1) by (auto simp: extends_def)
  have keys_b: "\<forall>m\<in>set b. rec_key m \<noteq> None \<and> the (rec_key m) \<notin> seen_ids st1"
    using assms(2) by (simp add: extends_def)
  have "rec_key ` set a \<inter> rec_key ` set b = {}"
  proof (rule ccontr)
    assume "rec_key ` set a \<inter> rec_key ` set b \<noteq> {}"
    then obtain x y where "x \<in> set a" "y \<in> set b" "rec_key x = rec_key y"
      by auto
    then show False
      using keys_a keys_b by metis
  qed
  then have "distinct (map rec_key (a @ b))"
    using assms by (simp add: extends_def)
  moreover have "\<forall>m\<in>set b. the (rec_key m) \<notin> seen_ids st"
    using keys_b assms(1) by (auto simp: extends_def)
  ultimately show ?thesis
    using assms by (auto simp: extends_def)
qed

lemma walk_n_extends: "\<exists>new. extends e site_key st (walk_n e target site_key cfg n st) new"
proof (induction n arbitrary: st)
  case 0
  show ?case using extends_refl by auto
next
  case (Suc n)
  show ?case
  proof (cases "loop_body e site_key cfg st")
    case (Inl raised)
    then show ?thesis using extends_refl by auto
  next
    case (Inr st')
    show ?thesis
    proof (cases "card (seen_ids st) < target")
      case True
      obtain b where "extends e site_key st' (walk_n e target site_key cfg n st') b"
        using Suc.IH by blast
      from extends_trans [OF extends_loop_body [OF Inr] this] show ?thesis
        using True Inr by auto
    next
      case False
      then show ?thesis using extends_refl by auto
    qed
  qed
qed

lemma extends_card:
  assumes "extends e site_key st r new" and "finite (seen_ids st)"
  shows "finite (seen_ids r) \<and> card (seen_ids r) = card (seen_ids st) + length new"
proof -
  let ?B = "the ` rec_key ` set new"
  have "card ?B = length new"
    using assms(1) by (intro card_rec_keys) (simp_all add: extends_def)
  moreover have "seen_ids st \<inter> ?B = {}"
    using assms(1) by (auto simp: extends_def)
  moreover have "seen_ids r = seen_ids st \<union> ?B"
    using assms(1) by (simp add: extends_def)
  ultimately show ?thesis
    using assms(2) by (simp add: card_Un_disjoint)
qed

lemma loop_body_finite:
  "loop_body e site_key cfg st = Inr st' \<Longrightarrow> finite (seen_ids st) \<Longrightarrow> finite (seen_ids st')"
  by (simp add: loop_body_Inr(1))

lemma loop_body_card:
  "loop_body e site_key cfg st = Inr st' \<Longrightarrow> finite (seen_ids st) \<Longrightarrow>
     card (seen_ids st') =
       (if takes e site_key cfg st then Suc (card (seen_ids st)) else card (seen_ids st))"
  by (simp add: loop_body_Inr(1) takes_def)

lemma walk_n_card_le:
  "finite (seen_ids st) \<Longrightarrow>
     card (seen_ids (walk_n e target site_key cfg n st)) \<le> max target (card (seen_ids st))"
proof (induction n arbitrary: st)
  case 0
  then show ?case by simp
next
  case (Suc n)
  show ?case
  proof (cases "loop_body e site_key cfg st")
    case (Inl raised)
    then show ?thesis by simp
  next
    case (Inr st')
    show ?thesis
    proof (cases "card (seen_ids st) < target")
      case True
      have "card (seen_ids (walk_n e target site_key cfg n st')) \<le> max target (card (seen_ids st'))"
        by (rule Suc.IH [OF loop_body_finite [OF Inr Suc.prems]])
      also have "\<dots> \<le> max target (card (seen_ids st))"
        using True Suc.prems by (simp add: loop_body_card [OF Inr])
      finally show ?thesis
        using True Inr by simp
    next
      case False
      then show ?thesis by simp
    qed
  qed
qed

lemma walk_n_done:
  "\<not> card (seen_ids (walk_n e target site_key cfg n st)) < target \<Longrightarrow>
     walk_loop e target site_key cfg st = Some (Inr (walk_n e target site_key cfg n st))"
proof (induction n arbitrary: st)
  case 0
  then show ?case by (subst walk_loop.simps) simp
next
  case (Suc n)
  show ?case
  proof (cases "card (seen_ids st) < target")
    case True
    show ?thesis
    proof (cases "loop_body e site_key cfg st")
      case (Inl raised)
      then show ?thesis using True Suc.prems by simp
    next
      case (Inr st')
      then have "\<not> card (seen_ids (walk_n e target site_key cfg n st')) < target"
        using Suc.prems True by simp
      from Suc.IH [OF this] show ?thesis
        using True Inr by (subst walk_loop.simps) simp
    qed
  next
    case False
    then show ?thesis by (subst walk_loop.simps) simp
  qed
qed

lemma walk_loop_walk_n:
  assumes "walk_loop e target site_key cfg st = Some (Inr r)"
  shows "\<exists>n. r = walk_n e target site_key cfg n st \<and> \<not> card (seen_ids r) < target"
proof -
  let ?P = "\<lambda>e target site_key cfg st y.
      \<forall>r. y = Inr r \<longrightarrow> (\<exists>n. r = walk_n e target site_key cfg n st \<and> \<not> card (seen_ids r) < target)"
  have step: "?P e target site_key cfg st y"
    if IH: "\<And>e target site_key cfg st y. loop e target site_key cfg st = Some y
              \<Longrightarrow> ?P e target site_key cfg st y"
      and eq: "(if card (seen_ids st) < target
                then (case loop_body e site_key cfg st of
                        Inl raised \<Rightarrow> Some (Inl raised)
                      | Inr st' \<Rightarrow> loop e target site_key cfg st')
                else Some (Inr st)) = Some y"
    for loop e target site_key cfg st y
  proof (intro allI impI)
    fix r
    assume y: "y = Inr r"
    show "\<exists>n. r = walk_n e target site_key cfg n st \<and> \<not> card (seen_ids r) < target"
    proof (cases "card (seen_ids st) < target")
      case True
      then obtain st' where st': "loop_body e site_key cfg st = Inr st'"
        "loop e target site_key cfg st' = Some (Inr r)"
        using eq y by (auto split: sum.splits)
      from IH [OF st'(2)] obtain n where
        "r = walk_n e target site_key cfg n st'" "\<not> card (seen_ids r) < target"
        by blast
      then have "r = walk_n e target site_key cfg (Suc n) st \<and> \<not> card (seen_ids r) < target"
        using True st'(1) by simp
      then show ?thesis by blast
    next
      case False
      then have "r = walk_n e target site_key cfg 0 st \<and> \<not> card (seen_ids r) < target"
        using eq y by simp
      then show ?thesis by blast
    qed
  qed
  from walk_loop.raw_induct [where P = ?P, OF step assms]
  have "\<forall>r'. Inr r = (Inr r' :: (py_error \<times> walk_state) + walk_state) \<longrightarrow>
          (\<exists>n. r' = walk_n e target site_key cfg n st \<and> \<not> card (seen_ids r') < target)" .
  then show ?thesis by blast
qed

section \<open>The verdicts on the candidates and the end of the loop\<close>

lemma fetch_loop_gets_only:
  "gets w = gets w' \<Longrightarrow>
     fst (fetch_loop e url attempt wait w) = fst (fetch_loop e url attempt wait w')
     \<and> gets (snd (fetch_loop e url attempt wait w)) = gets (snd (fetch_loop e url attempt wait w'))"
proof (induction e url attempt wait w arbitrary: w' rule: fetch_loop.induct)
  case (1 e url attempt wait w)
  show ?case
  proof (cases "attempt > MAX_RETRIES \<or> attempt = MAX_RETRIES \<or> http_get e (gets w) url \<noteq> RequestException")
    case True
    then show ?thesis
      using 1(2)
      by (subst fetch_loop.simps, subst (2) fetch_loop.simps, subst (3) fetch_loop.simps,
          subst (4) fetch_loop.simps)
         (auto simp: Let_def split: reply.splits)
  next
    case False
    let ?w1 = "w\<lparr>gets := gets w + 1, events := events w @ [Get url]\<rparr>"
    let ?w1' = "w'\<lparr>gets := gets w' + 1, events := events w' @ [Get url]\<rparr>"
    have IH: "fst (fetch_loop e url (attempt + 1) (wait * BACKOFF_FACTOR) (?w1\<lparr>events := events ?w1 @ [Sleep wait]\<rparr>))
                = fst (fetch_loop e url (attempt + 1) (wait * BACKOFF_FACTOR) (?w1'\<lparr>events := events ?w1' @ [Sleep wait]\<rparr>))
              \<and> gets (snd (fetch_loop e url (attempt + 1) (wait * BACKOFF_FACTOR) (?w1\<lparr>events := events ?w1 @ [Sleep wait]\<rparr>)))
                = gets (snd (fetch_loop e url (attempt + 1) (wait * BACKOFF_FACTOR) (?w1'\<lparr>events := events ?w1' @ [Sleep wait]\<rparr>)))"
      using False 1(2) by (intro 1(1)) auto
    have a: "fetch_loop e url attempt wait w
               = fetch_loop e url (attempt + 1) (wait * BACKOFF_FACTOR) (?w1\<lparr>events := events ?w1 @ [Sleep wait]\<rparr>)"
      using False by (subst fetch_loop.simps) (simp add: Let_def)
    have b: "fetch_loop e url attempt wait w'
               = fetch_loop e url (attempt + 1) (wait * BACKOFF_FACTOR) (?w1'\<lparr>events := events ?w1' @ [Sleep wait]\<rparr>)"
      using False 1(2) by (subst fetch_loop.simps) (simp add: Let_def)
    show ?thesis
      unfolding a b by (rule IH)
  qed
qed

lemma fetched_probe:
  "fst (fetched e cfg st) = fst (fetch_url e (pattern cfg (current_id st)) (probe (gets (sys st))))
   \<and> gets (snd (fetched e cfg st)) = gets (snd (fetch_url e (pattern cfg (current_id st)) (probe (gets (sys st)))))"
  unfolding fetched_def fetch_url_def
  by (rule fetch_loop_gets_only) (simp add: probe_def)

lemma candidates_Suc:
  assumes "PInt (current_id st) \<notin> seen_ids st" and "loop_body e site_key cfg st = Inr st'"
  shows "verdicts e site_key cfg (gets (sys st)) (current_id st) (Suc n) =
           takes e site_key cfg st # verdicts e site_key cfg (gets (sys st')) (current_id st') n"
    and "harvest e site_key cfg (gets (sys st)) (current_id st) (Suc n) =
           (if takes e site_key cfg st then [new_meta e site_key cfg st] else [])
             @ harvest e site_key cfg (gets (sys st')) (current_id st') n"
    and "writes e site_key cfg (gets (sys st)) (current_id st) (Suc n) =
           ((takes e site_key cfg st \<longrightarrow> pass_writes e site_key cfg st)
             \<and> writes e site_key cfg (gets (sys st')) (current_id st') n)"
proof -
  note p = fetched_probe [of e cfg st]
  note b = loop_body_Inr(3,5) [OF assms(2)]
  show "verdicts e site_key cfg (gets (sys st)) (current_id st) (Suc n) =
           takes e site_key cfg st # verdicts e site_key cfg (gets (sys st')) (current_id st') n"
    using p assms(1) by (simp add: split_beta takes_def b)
  have "accepted e site_key (fst (fetched e cfg st)) \<Longrightarrow> fst (fst (fetched e cfg st)) = Some 200"
    by (auto simp: accepted_def split: option.splits prod.splits)
  then show "harvest e site_key cfg (gets (sys st)) (current_id st) (Suc n) =
           (if takes e site_key cfg st then [new_meta e site_key cfg st] else [])
             @ harvest e site_key cfg (gets (sys st')) (current_id st') n"
    using p assms(1)
    by (simp add: split_beta takes_def b new_meta_def make_meta_document_record)
  show "writes e site_key cfg (gets (sys st)) (current_id st) (Suc n) =
           ((takes e site_key cfg st \<longrightarrow> pass_writes e site_key cfg st)
             \<and> writes e site_key cfg (gets (sys st')) (current_id st') n)"
    using p assms(1) by (simp add: split_beta takes_def b pass_writes_def)
qed


lemma writes_head:
  assumes "PInt (current_id st) \<notin> seen_ids st"
    and "writes e site_key cfg (gets (sys st)) (current_id st) (Suc n)"
  shows "takes e site_key cfg st \<longrightarrow> pass_writes e site_key cfg st"
  using fetched_probe [of e cfg st] assms
  by (simp add: split_beta takes_def pass_writes_def)

lemma walk_fresh_terminates:
  assumes "step cfg \<noteq> 0" and "finite (seen_ids st)"
    and "\<forall>j::nat. PInt (current_id st + int j * step cfg) \<notin> seen_ids st"
    and "target \<le> card (seen_ids st)
           + count_list (verdicts e site_key cfg (gets (sys st)) (current_id st) n) True"
    and "writes e site_key cfg (gets (sys st)) (current_id st) n"
  shows "\<exists>r k. walk_loop e target site_key cfg st = Some (Inr r) \<and> k \<le> n
           \<and> attempts r = attempts st + k
           \<and> current_id r = current_id st + int k * step cfg
           \<and> card (seen_ids r) = max target (card (seen_ids st))
           \<and> count_list (take k (verdicts e site_key cfg (gets (sys st)) (current_id st) n)) True
               = target - card (seen_ids st)
           \<and> (0 < k \<longrightarrow> verdicts e site_key cfg (gets (sys st)) (current_id st) n ! (k - 1))
           \<and> metadata r = metadata st @ harvest e site_key cfg (gets (sys st)) (current_id st) k"
  using assms
proof (induction n arbitrary: st)
  case 0
  then have "\<not> card (seen_ids st) < target" by simp
  then have "walk_loop e target site_key cfg st = Some (Inr st)"
    by (subst walk_loop.simps) simp
  then show ?case
    using \<open>\<not> card (seen_ids st) < target\<close> by (intro exI [of _ st] exI [of _ 0]) simp
next
  case (Suc n)
  let ?vs = "verdicts e site_key cfg (gets (sys st)) (current_id st) (Suc n)"
  show ?case
  proof (cases "card (seen_ids st) < target")
    case False
    then have "walk_loop e target site_key cfg st = Some (Inr st)"
      by (subst walk_loop.simps) simp
    then show ?thesis
      using False by (intro exI [of _ st] exI [of _ 0]) simp
  next
    case True
    have unseen: "PInt (current_id st) \<notin> seen_ids st"
      using Suc.prems(3) by (auto dest: spec [of _ 0])
    obtain st1 where st1: "loop_body e site_key cfg st = Inr st1"
      using loop_body_returns [OF writes_head [OF unseen Suc.prems(5)]] by blast
    let ?v = "takes e site_key cfg st"
    let ?vs1 = "verdicts e site_key cfg (gets (sys st1)) (current_id st1) n"
    note b = loop_body_Inr [OF st1]
    have vs: "?vs = ?v # ?vs1"
      using unseen st1 by (rule candidates_Suc(1))
    have card1: "card (seen_ids st1) = (if ?v then Suc (card (seen_ids st)) else card (seen_ids st))"
      using st1 Suc.prems(2) by (rule loop_body_card)
    have fin1: "finite (seen_ids st1)"
      using st1 Suc.prems(2) by (rule loop_body_finite)
    have fresh1: "\<forall>j::nat. PInt (current_id st1 + int j * step cfg) \<notin> seen_ids st1"
    proof
      fix j :: nat
      have "current_id st1 + int j * step cfg = current_id st + int (Suc j) * step cfg"
        by (simp add: b(3) algebra_simps)
      moreover have "PInt (current_id st + int (Suc j) * step cfg) \<notin> seen_ids st"
        using Suc.prems(3) by blast
      moreover have "current_id st + int (Suc j) * step cfg \<noteq> current_id st"
        using Suc.prems(1) by simp
      ultimately show "PInt (current_id st1 + int j * step cfg) \<notin> seen_ids st1"
        by (simp add: b(1))
    qed
    have enough1: "target \<le> card (seen_ids st1) + count_list ?vs1 True"
      using Suc.prems(4) unfolding vs card1 by auto
    have writes1: "writes e site_key cfg (gets (sys st1)) (current_id st1) n"
      using Suc.prems(5) candidates_Suc(3) [OF unseen st1] by blast
    from Suc.IH [OF Suc.prems(1) fin1 fresh1 enough1 writes1]
    obtain r k where rk: "walk_loop e target site_key cfg st1 = Some (Inr r)" "k \<le> n"
      "attempts r = attempts st1 + k"
      "current_id r = current_id st1 + int k * step cfg"
      "card (seen_ids r) = max target (card (seen_ids st1))"
      "count_list (take k ?vs1) True = target - card (seen_ids st1)"
      "0 < k \<longrightarrow> ?vs1 ! (k - 1)"
      "metadata r = metadata st1 @ harvest e site_key cfg (gets (sys st1)) (current_id st1) k"
      by blast
    have loop: "walk_loop e target site_key cfg st = Some (Inr r)"
      using True rk(1) st1 by (subst walk_loop.simps) simp
    have att: "attempts r = attempts st + Suc k"
      using rk(3) unseen by (simp add: b(4))
    have cur: "current_id r = current_id st + int (Suc k) * step cfg"
      using rk(4) by (simp add: b(3) algebra_simps)
    have card_r: "card (seen_ids r) = max target (card (seen_ids st))"
      using rk(5) True card1 by auto
    have cnt: "count_list (take (Suc k) ?vs) True = target - card (seen_ids st)"
      using rk(6) True card1 unfolding vs by auto
    have last: "?vs ! (Suc k - 1)"
    proof (cases k)
      case 0
      then have "target \<le> card (seen_ids st1)"
        using rk(6) by simp
      then have "?v"
        using True card1 by (auto split: if_splits)
      then show ?thesis
        unfolding vs using 0 by simp
    next
      case (Suc k')
      then show ?thesis
        unfolding vs using rk(7) by simp
    qed
    have md: "metadata r = metadata st @ harvest e site_key cfg (gets (sys st)) (current_id st) (Suc k)"
      unfolding rk(8) candidates_Suc(2) [OF unseen st1] by (simp add: b(2))
    show ?thesis
      using loop rk(2) att cur card_r cnt last md
      by (intro exI [of _ r] exI [of _ "Suc k"]) (simp del: verdicts.simps harvest.simps)
  qed
qed

section \<open>The mocked network\<close>

lemma long_body_accepted:
  "accepted (mock_env script) site_key (Some 200, Some long_body)"
  by (simp add: accepted_def long_body_def is_likely_recipe_def mock_env_def Let_def)

lemma surrogate_body_accepted:
  "accepted (mock_env script) site_key (Some 200, Some surrogate_body)"
  by (simp add: accepted_def surrogate_body_def is_likely_recipe_def mock_env_def Let_def)

lemma not_found_rejected:
  "\<not> accepted (mock_env script) site_key (Some 404, Some [])"
  by (simp add: accepted_def)

lemma fetch_url_mock:
  "fetch_url (mock_env script) url (probe g) =
     (case script g of
        Response status text \<Rightarrow>
          ((Some status, Some text), \<lparr>gets = g + 1, draws = 0, events = [Get url], files = Map.empty\<rparr>)
      | RequestException \<Rightarrow> fetch_url (mock_env script) url (probe g))"
proof (cases "script g")
  case (Response status tx)
  then show ?thesis
    using fetch_loop_response [of 1 "mock_env script" "probe g" url status tx]
    by (simp add: fetch_url_def MAX_RETRIES_def mock_env_def probe_def)
next
  case RequestException
  then show ?thesis by simp
qed

lemma utf8_ok_collapse_ws: "utf8_ok s \<Longrightarrow> utf8_ok (collapse_ws s)"
proof (induction s rule: collapse_ws.induct)
  case 1
  then show ?case by simp
next
  case (2 c cs)
  have "utf8_ok cs \<Longrightarrow> utf8_ok (dropWhile py_isspace cs)"
    by (auto simp: utf8_ok_def list_all_iff dest: set_dropWhileD)
  then show ?case
    using 2 by (auto simp: utf8_ok_def)
qed

lemma digits_range: "\<forall>c\<in>set (digits n). 48 \<le> c \<and> c \<le> 57"
proof (induction n rule: digits.induct)
  case (1 n)
  show ?case
  proof (cases "n < 10")
    case True
    then show ?thesis
      by (subst digits.simps) simp
  next
    case False
    have "n mod 10 < 10" by simp
    then have "48 + n mod 10 \<le> 57" by linarith
    then show ?thesis
      using False 1 by (subst digits.simps) simp
  qed
qed

lemma utf8_ok_id_dumps: "utf8_ok (id_dumps v)"
proof -
  have "utf8_ok (digits n)" for n
    using digits_range [of n] by (fastforce simp: utf8_ok_def list_all_iff)
  then have "utf8_ok (str_int i)" for i
    by (simp add: str_int_def utf8_ok_def)
  then have "utf8_ok (id_prefix @ str_int i @ [125])" for i
    by (simp add: utf8_ok_def id_prefix_def)
  moreover have "utf8_ok (ascii ''null'')"
    by (simp add: utf8_ok_def ascii_def)
  ultimately show ?thesis
    by (simp add: id_dumps_def split: sum.splits pyval.splits)
qed

lemma writes_ok_mock:
  "utf8_ok body \<Longrightarrow> writes_ok (mock_env script) site_key cid url status body"
  by (simp add: writes_ok_def extract_text_from_html_def utf8_ok_collapse_ws utf8_ok_id_dumps
        mock_env_def)

lemma utf8_ok_long_body: "utf8_ok long_body"
  by (simp add: utf8_ok_def long_body_def list_all_iff)

lemma rec_key_document_record: "rec_key (document_record site_key cid url body txt) = Some (PInt cid)"
  by (simp add: rec_key_def document_record_def)

lemma three_of_ten_candidates:
  "verdicts (mock_env three_of_ten) povarenok povarenok_cfg 0 20000 10
     = [False, True, False, False, True, False, False, True, False, False]"
  "writes (mock_env three_of_ten) povarenok povarenok_cfg 0 20000 10"
  "map rec_key (harvest (mock_env three_of_ten) povarenok povarenok_cfg 0 20000 8)
     = [Some (PInt 19999), Some (PInt 19996), Some (PInt 19993)]"
proof -
  have ten: "(10::nat) = Suc (Suc (Suc (Suc (Suc (Suc (Suc (Suc (Suc (Suc 0)))))))))"
    and eight: "(8::nat) = Suc (Suc (Suc (Suc (Suc (Suc (Suc (Suc 0)))))))"
    by simp_all
  have step: "step povarenok_cfg = - 1"
    by (simp add: povarenok_cfg_def)
  have r: "\<And>g. three_of_ten g = (if g = 1 \<or> g = 4 \<or> g = 7 then Response 200 long_body else Response 404 [])"
    by (simp add: three_of_ten_def)
  show "verdicts (mock_env three_of_ten) povarenok povarenok_cfg 0 20000 10
     = [False, True, False, False, True, False, False, True, False, False]"
    unfolding ten
    by (simp add: fetch_url_mock r step long_body_accepted not_found_rejected)
  show "writes (mock_env three_of_ten) povarenok povarenok_cfg 0 20000 10"
    unfolding ten
    by (simp add: fetch_url_mock r step long_body_accepted not_found_rejected
          writes_ok_mock utf8_ok_long_body)
  show "map rec_key (harvest (mock_env three_of_ten) povarenok povarenok_cfg 0 20000 8)
     = [Some (PInt 19999), Some (PInt 19996), Some (PInt 19993)]"
    unfolding eight
    by (simp add: fetch_url_mock r step long_body_accepted not_found_rejected
          rec_key_document_record)
qed

section \<open>The end of a run from a missing ledger\<close>

text \<open>
  C5, as stated, fails. Three of the first ten candidates are classified as documents,
  but the first of them holds a lone surrogate: \<open>body.encode("utf-8")\<close> raises, and the
  run ends with \<open>UnicodeEncodeError\<close> instead of three records.
\<close>

theorem lone_surrogate_aborts:
  "files world0 (meta_file povarenok) = None
   \<and> count_list (verdicts (mock_env surrogate_first) povarenok povarenok_cfg (gets world0)
        (start_id povarenok_cfg) 10) True = 3
   \<and> collect_run (mock_env surrogate_first) 3 povarenok povarenok_cfg world0
       = Some (Inl UnicodeEncodeError)"
proof -
  let ?e = "mock_env surrogate_first"
  let ?st0 = "init_state povarenok_cfg ({}, []) world0"
  have ten: "(10::nat) = Suc (Suc (Suc (Suc (Suc (Suc (Suc (Suc (Suc (Suc 0)))))))))"
    by simp
  have r: "\<And>g. surrogate_first g =
      (if g = 0 then Response 200 surrogate_body
       else if g = 4 \<or> g = 7 then Response 200 long_body else Response 404 [])"
    by (simp add: surrogate_first_def)
  have "verdicts ?e povarenok povarenok_cfg 0 20000 10
          = [True, False, False, False, True, False, False, True, False, False]"
    unfolding ten
    by (simp add: fetch_url_mock r povarenok_cfg_def long_body_accepted surrogate_body_accepted
          not_found_rejected)
  then have count: "count_list (verdicts ?e povarenok povarenok_cfg (gets world0)
        (start_id povarenok_cfg) 10) True = 3"
    by (simp add: world0_def povarenok_cfg_def)
  have load0: "load_meta ?e povarenok world0 = Inr ({}, [])"
    by (simp add: load_meta_def world0_def)
  have f: "fst (fetched ?e povarenok_cfg ?st0) = (Some 200, Some surrogate_body)"
    using fetched_probe [of ?e povarenok_cfg ?st0]
    by (simp add: init_state_def world0_def fetch_url_mock r)
  then have takes: "takes ?e povarenok povarenok_cfg ?st0"
    by (simp add: takes_def surrogate_body_accepted init_state_def)
  have "\<not> utf8_ok surrogate_body"
    by (simp add: utf8_ok_def surrogate_body_def)
  then have "\<not> pass_writes ?e povarenok povarenok_cfg ?st0"
    by (simp add: pass_writes_def writes_ok_def f)
  from loop_body_raises [OF takes this] obtain st' where
    "loop_body ?e povarenok povarenok_cfg ?st0 = Inl (UnicodeEncodeError, st')"
    by blast
  then have "walk_loop ?e 3 povarenok povarenok_cfg ?st0 = Some (Inl (UnicodeEncodeError, st'))"
    by (subst walk_loop.simps) (simp add: init_state_def)
  then have "collect_run ?e 3 povarenok povarenok_cfg world0 = Some (Inl UnicodeEncodeError)"
    by (simp add: collect_run_def load0)
  then show ?thesis
    using count by (simp add: world0_def)
qed

text \<open>
  C5, amended. From a ledger that does not exist, with the target 3, when exactly three
  of the first ten candidate identifiers (ten different ones: the step is not zero) are
  classified as documents, and the page, the text and the ledger line of each of them
  can be written as UTF-8, the run ends, after as many passes as it takes to reach the
  third of them, the rejected ones on the way included and none after it; it has then
  collected exactly three records: the DocumentRecords of the three accepted
  candidates, in the order of the walk.
\<close>

theorem walk_stops_at_target:
  assumes "files w (meta_file site_key) = None"
    and "step cfg \<noteq> 0"
    and "count_list (verdicts e site_key cfg (gets w) (start_id cfg) 10) True = 3"
    and "writes e site_key cfg (gets w) (start_id cfg) 10"
  shows "\<exists>r. collect_run e 3 site_key cfg w = Some (Inr r)
           \<and> metadata r = harvest e site_key cfg (gets w) (start_id cfg) (attempts r)
           \<and> length (metadata r) = 3
           \<and> card (seen_ids r) = 3
           \<and> 0 < attempts r \<and> attempts r \<le> 10
           \<and> current_id r = start_id cfg + int (attempts r) * step cfg
           \<and> count_list (take (attempts r) (verdicts e site_key cfg (gets w) (start_id cfg) 10)) True = 3
           \<and> verdicts e site_key cfg (gets w) (start_id cfg) 10 ! (attempts r - 1)"
proof -
  let ?st = "init_state cfg ({}, []) w"
  let ?vs = "verdicts e site_key cfg (gets w) (start_id cfg) 10"
  have load: "load_meta e site_key w = Inr ({}, [])"
    using assms(1) by (simp add: load_meta_def)
  have "\<exists>r k. walk_loop e 3 site_key cfg ?st = Some (Inr r) \<and> k \<le> 10
           \<and> attempts r = attempts ?st + k
           \<and> current_id r = current_id ?st + int k * step cfg
           \<and> card (seen_ids r) = max 3 (card (seen_ids ?st))
           \<and> count_list (take k (verdicts e site_key cfg (gets (sys ?st)) (current_id ?st) 10)) True
               = 3 - card (seen_ids ?st)
           \<and> (0 < k \<longrightarrow> verdicts e site_key cfg (gets (sys ?st)) (current_id ?st) 10 ! (k - 1))
           \<and> metadata r = metadata ?st @ harvest e site_key cfg (gets (sys ?st)) (current_id ?st) k"
    using assms(2,3,4) by (intro walk_fresh_terminates) (simp_all add: init_state_def)
  then obtain r k where rk: "walk_loop e 3 site_key cfg ?st = Some (Inr r)" "k \<le> 10"
      "attempts r = k" "current_id r = start_id cfg + int k * step cfg"
      "card (seen_ids r) = 3" "count_list (take k ?vs) True = 3" "0 < k \<longrightarrow> ?vs ! (k - 1)"
      "metadata r = harvest e site_key cfg (gets w) (start_id cfg) k"
    by (auto simp: init_state_def)
  have "0 < k"
    using rk(6) by (cases k) simp_all
  obtain m where "r = walk_n e 3 site_key cfg m ?st"
    using walk_loop_walk_n [OF rk(1)] by blast
  then obtain new where new: "extends e site_key ?st r new"
    using walk_n_extends [of e site_key ?st 3 cfg m] by blast
  have "finite (seen_ids ?st)"
    by (simp add: init_state_def)
  from extends_card [OF new this] have "length new = 3"
    using rk(5) by (simp add: init_state_def)
  moreover have "metadata r = new"
    using new by (simp add: extends_def init_state_def)
  ultimately have "length (metadata r) = 3"
    by simp
  moreover have "collect_run e 3 site_key cfg w = Some (Inr r)"
    using load rk(1) by (simp add: collect_run_def)
  ultimately show ?thesis
    using rk \<open>0 < k\<close> by (intro exI [of _ r]) simp
qed

theorem walk_stops_at_target_witness:
  "\<exists>r. collect_run (mock_env three_of_ten) 3 povarenok povarenok_cfg world0 = Some (Inr r)
       \<and> length (metadata r) = 3 \<and> attempts r = 8 \<and> current_id r = 19992
       \<and> map rec_key (metadata r) = [Some (PInt 19999), Some (PInt 19996), Some (PInt 19993)]"
proof -
  let ?e = "mock_env three_of_ten"
  have a: "files world0 (meta_file povarenok) = None"
    by (simp add: world0_def)
  have b: "step povarenok_cfg \<noteq> 0"
    by (simp add: povarenok_cfg_def)
  have g: "gets world0 = 0" "start_id povarenok_cfg = 20000"
    by (simp_all add: world0_def povarenok_cfg_def)
  note vs = three_of_ten_candidates(1)
  have c: "count_list (verdicts ?e povarenok povarenok_cfg (gets world0)
              (start_id povarenok_cfg) 10) True = 3"
    unfolding g vs by simp
  have d: "writes ?e povarenok povarenok_cfg (gets world0) (start_id povarenok_cfg) 10"
    unfolding g by (rule three_of_ten_candidates(2))
  from walk_stops_at_target [OF a b c d] obtain r where
    r: "collect_run ?e 3 povarenok povarenok_cfg world0 = Some (Inr r)"
      "metadata r = harvest ?e povarenok povarenok_cfg 0 20000 (attempts r)"
      "length (metadata r) = 3" "0 < attempts r" "attempts r \<le> 10"
      "current_id r = start_id povarenok_cfg + int (attempts r) * step povarenok_cfg"
      "count_list (take (attempts r) [False, True, False, False, True, False, False, True, False, False]) True = 3"
      "[False, True, False, False, True, False, False, True, False, False] ! (attempts r - 1)"
    unfolding g vs by blast
  have "attempts r < Suc (Suc (Suc (Suc (Suc (Suc (Suc (Suc (Suc (Suc (Suc 0))))))))))"
    using r(5) by simp
  then have att: "attempts r = 8"
    using r(4,7,8) by (auto simp: less_Suc_eq)
  have "map rec_key (metadata r) = [Some (PInt 19999), Some (PInt 19996), Some (PInt 19993)]"
    unfolding r(2) att by (rule three_of_ten_candidates(3))
  then show ?thesis
    using r(1,3,6) att by (intro exI [of _ r]) (simp add: povarenok_cfg_def)
qed

section \<open>Resumed runs\<close>

lemma collect_run_Inr:
  assumes "load_meta e site_key w = Inr loaded"
  shows "collect_run e target site_key cfg w = Some (Inr r)
           \<longleftrightarrow> walk_loop e target site_key cfg (init_state cfg loaded w) = Some (Inr r)"
proof (cases "walk_loop e target site_key cfg (init_state cfg loaded w)")
  case None
  then show ?thesis using assms by (simp add: collect_run_def)
next
  case (Some y)
  show ?thesis
  proof (cases y)
    case (Inl p)
    then show ?thesis
      using assms Some by (cases p) (simp add: collect_run_def)
  next
    case (Inr st)
    then show ?thesis
      using assms Some by (simp add: collect_run_def)
  qed
qed

lemma load_lines_keys:
  assumes "load_lines e ls (seen, md) = Inr (seen', md')"
    and "seen = the ` rec_key ` set md" and "\<forall>m\<in>set md. rec_key m \<noteq> None"
  shows "seen' = the ` rec_key ` set md' \<and> (\<forall>m\<in>set md'. rec_key m \<noteq> None)"
  using assms
proof (induction ls arbitrary: seen md)
  case Nil
  then show ?case by auto
next
  case (Cons l ls)
  from Cons.prems(1) obtain obj v k where
    l: "json_loads e l = Inr obj" "getitem_id obj = Inr v" "hkey v = Some k"
      "load_lines e ls (insert k seen, md @ [obj]) = Inr (seen', md')"
    by (auto split: sum.splits option.splits)
  have k: "rec_key obj = Some k"
    using l(2,3) by (simp add: rec_key_def)
  have "insert k seen = the ` rec_key ` set (md @ [obj])"
    using Cons.prems(2) k by auto
  moreover have "\<forall>m\<in>set (md @ [obj]). rec_key m \<noteq> None"
    using Cons.prems(3) k by auto
  ultimately show ?case
    by (rule Cons.IH [OF l(4)])
qed

lemma load_meta_keys:
  assumes "load_meta e site_key w = Inr (seen0, md0)"
  shows "seen0 = the ` rec_key ` set md0 \<and> (\<forall>m\<in>set md0. rec_key m \<noteq> None) \<and> finite seen0"
proof -
  have "load_lines e (readlines [] (ledger_text site_key w)) ({}, []) = Inr (seen0, md0)"
    using assms by (simp add: load_meta_ledger_text)
  then have "seen0 = the ` rec_key ` set md0 \<and> (\<forall>m\<in>set md0. rec_key m \<noteq> None)"
    by (rule load_lines_keys) simp_all
  then show ?thesis by simp
qed

text \<open>
  C10. The loop condition counts the identifiers loaded from the ledger. When the
  ledger loads as the records \<open>md0\<close> with \<open>K = card seen0\<close> different identifiers,
  the run never holds more than \<open>target - K\<close> records beyond \<open>md0\<close>, whatever the
  number of passes; when it ends it holds exactly that many; and when \<open>K\<close> has reached
  the target it returns at once, the world untouched: no request is sent.
\<close>

theorem target_counts_loaded_ids:
  assumes "load_meta e site_key w = Inr (seen0, md0)"
  shows "(\<forall>n. length (metadata (walk_n e target site_key cfg n (init_state cfg (seen0, md0) w)))
              \<le> length md0 + (target - card seen0)
            \<and> take (length md0) (metadata (walk_n e target site_key cfg n (init_state cfg (seen0, md0) w)))
              = md0)
       \<and> (\<forall>r. collect_run e target site_key cfg w = Some (Inr r)
              \<longrightarrow> length (metadata r) = length md0 + (target - card seen0))
       \<and> (target \<le> card seen0
              \<longrightarrow> collect_for_site e target site_key cfg w = Some (Inr md0, w))"
proof (intro conjI allI impI)
  let ?st = "init_state cfg (seen0, md0) w"
  have fin: "finite (seen_ids ?st)"
    using load_meta_keys [OF assms] by (simp add: init_state_def)
  have count: "length (metadata (walk_n e target site_key cfg n ?st)) = length md0 + length new
               \<and> card (seen_ids (walk_n e target site_key cfg n ?st)) = card seen0 + length new
               \<and> take (length md0) (metadata (walk_n e target site_key cfg n ?st)) = md0"
    if "extends e site_key ?st (walk_n e target site_key cfg n ?st) new" for n new
    using extends_card [OF that fin] that by (simp add: extends_def init_state_def)
  {
    fix n
    obtain new where new: "extends e site_key ?st (walk_n e target site_key cfg n ?st) new"
      using walk_n_extends by blast
    have "card (seen_ids (walk_n e target site_key cfg n ?st)) \<le> max target (card seen0)"
      using walk_n_card_le [OF fin, of e target site_key cfg n] by (simp add: init_state_def)
    then show "length (metadata (walk_n e target site_key cfg n ?st)) \<le> length md0 + (target - card seen0)"
      using count [OF new] by auto
    show "take (length md0) (metadata (walk_n e target site_key cfg n ?st)) = md0"
      using count [OF new] by simp
  }
  {
    fix r
    assume "collect_run e target site_key cfg w = Some (Inr r)"
    then have "walk_loop e target site_key cfg ?st = Some (Inr r)"
      using assms by (simp add: collect_run_Inr)
    then obtain n where n: "r = walk_n e target site_key cfg n ?st" "\<not> card (seen_ids r) < target"
      using walk_loop_walk_n by blast
    obtain new where new: "extends e site_key ?st (walk_n e target site_key cfg n ?st) new"
      using walk_n_extends by blast
    have "card (seen_ids r) \<le> max target (card seen0)"
      using walk_n_card_le [OF fin, of e target site_key cfg n] n(1) by (simp add: init_state_def)
    then show "length (metadata r) = length md0 + (target - card seen0)"
      using count [OF new] n by auto
  }
  {
    assume "target \<le> card seen0"
    then have "walk_loop e target site_key cfg ?st = Some (Inr ?st)"
      by (subst walk_loop.simps) (simp add: init_state_def)
    then show "collect_for_site e target site_key cfg w = Some (Inr md0, w)"
      using assms by (simp add: collect_for_site_def init_state_def)
  }
qed

lemma load_resumed_world:
  "load_meta (mock_env script) povarenok resumed_world = Inr ({PInt 20000}, [rec20000])"
  by (simp add: load_meta_def resumed_world_def append_meta_def world0_def mock_env_def
        id_dumps_def rec20000_def id_prefix_def str_int_def digits.simps id_loads_def
        parse_digits_def)

theorem target_counts_loaded_ids_witness:
  "collect_for_site (mock_env three_of_ten) 1 povarenok povarenok_cfg resumed_world
     = Some (Inr [rec20000], resumed_world)
   \<and> (\<exists>r. collect_run (mock_env three_of_ten) 2 povarenok povarenok_cfg resumed_world = Some (Inr r)
          \<and> length (metadata r) = 2)"
proof -
  let ?e = "mock_env three_of_ten"
  let ?st0 = "init_state povarenok_cfg ({PInt 20000}, [rec20000]) resumed_world"
  let ?st1 = "?st0\<lparr>current_id := 19999\<rparr>"
  have skip: "loop_body ?e povarenok povarenok_cfg ?st0 = Inr ?st1"
    by (simp add: loop_body_skip init_state_def povarenok_cfg_def)
  have g: "gets (sys ?st1) = 0" "current_id ?st1 = 19999" "seen_ids ?st1 = {PInt 20000}"
    by (simp_all add: init_state_def resumed_world_def append_meta_def world0_def)
  have two: "(2::nat) = Suc (Suc 0)"
    by simp
  have vs: "verdicts ?e povarenok povarenok_cfg 0 19999 2 = [False, True]"
    unfolding two
    by (simp add: fetch_url_mock three_of_ten_def long_body_accepted not_found_rejected
          povarenok_cfg_def)
  have ws: "writes ?e povarenok povarenok_cfg 0 19999 2"
    unfolding two
    by (simp add: fetch_url_mock three_of_ten_def long_body_accepted not_found_rejected
          povarenok_cfg_def writes_ok_mock utf8_ok_long_body)
  have a: "step povarenok_cfg \<noteq> 0"
    by (simp add: povarenok_cfg_def)
  have b: "finite (seen_ids ?st1)"
    unfolding g by simp
  have c: "\<forall>j::nat. PInt (current_id ?st1 + int j * step povarenok_cfg) \<notin> seen_ids ?st1"
    unfolding g by (simp add: povarenok_cfg_def)
  have d: "2 \<le> card (seen_ids ?st1)
             + count_list (verdicts ?e povarenok povarenok_cfg (gets (sys ?st1)) (current_id ?st1) 2) True"
    unfolding g vs by simp
  have w: "writes ?e povarenok povarenok_cfg (gets (sys ?st1)) (current_id ?st1) 2"
    unfolding g by (rule ws)
  from walk_fresh_terminates [OF a b c d w]
  obtain r where "walk_loop ?e 2 povarenok povarenok_cfg ?st1 = Some (Inr r)"
    by blast
  then have "walk_loop ?e 2 povarenok povarenok_cfg ?st0 = Some (Inr r)"
    using skip by (subst walk_loop.simps) (simp add: init_state_def)
  then have run: "collect_run ?e 2 povarenok povarenok_cfg resumed_world = Some (Inr r)"
    by (simp add: collect_run_def load_resumed_world)
  show ?thesis
    using target_counts_loaded_ids [OF load_resumed_world, of three_of_ten 1 povarenok_cfg]
      target_counts_loaded_ids [OF load_resumed_world, of three_of_ten 2 povarenok_cfg] run
    by auto
qed

lemma skip_lf_append: "cs \<noteq> [] \<Longrightarrow> skip_lf (cs @ b) = skip_lf cs @ b"
  by (cases cs) (simp_all add: skip_lf_def)

lemma skip_lf_last: "last cs = 10 \<Longrightarrow> cs \<noteq> [] \<Longrightarrow> skip_lf cs = [] \<or> last (skip_lf cs) = 10"
  by (cases cs) (auto simp: skip_lf_def split: if_splits)

lemma readlines_append:
  "a = [] \<or> last a = 10 \<Longrightarrow>
     readlines cur (a @ b) = (if a = [] then readlines cur b else readlines cur a @ readlines [] b)"
proof (induction cur a rule: readlines.induct)
  case (1 cur)
  then show ?case by simp
next
  case (2 cur c cs)
  show ?case
  proof (cases "cs = []")
    case True
    then show ?thesis using 2(4) by simp
  next
    case False
    then have last: "last cs = 10"
      using 2(4) by simp
    show ?thesis
    proof (cases "c = 10")
      case True
      then show ?thesis using 2(1) False last by simp
    next
      case c10: False
      show ?thesis
      proof (cases "c = 13")
        case True
        have "skip_lf cs = [] \<or> last (skip_lf cs) = 10"
          using last False by (rule skip_lf_last)
        from 2(2) [OF c10 True this] show ?thesis
          using True c10 False by (simp add: skip_lf_append)
      next
        case False
        from 2(3) [OF c10 False] show ?thesis
          using c10 False last \<open>cs \<noteq> []\<close> by simp
      qed
    qed
  qed
qed

lemma load_lines_append:
  "load_lines e (xs @ ys) acc =
     (case load_lines e xs acc of Inl err \<Rightarrow> Inl err | Inr acc' \<Rightarrow> load_lines e ys acc')"
proof (induction xs arbitrary: acc)
  case Nil
  then show ?case by simp
next
  case (Cons x xs)
  obtain seen md where "acc = (seen, md)" by (cases acc)
  then show ?case
    using Cons by (simp split: sum.splits option.splits)
qed

lemma load_lines_reload:
  assumes "\<forall>m\<in>set ms. reloads e m"
  shows "\<exists>ms'. load_lines e (map (ledger_line e) ms) (seen, md)
                 = Inr (seen \<union> the ` rec_key ` set ms, md @ ms')
               \<and> map rec_key ms' = map rec_key ms"
  using assms
proof (induction ms arbitrary: seen md)
  case Nil
  then show ?case by simp
next
  case (Cons m ms)
  from Cons.prems obtain m' k where m': "json_loads e (ledger_line e m) = Inr m'"
      "rec_key m' = rec_key m" "rec_key m = Some k"
    by (auto simp: reloads_def split: sum.splits)
  then obtain v where v: "getitem_id m' = Inr v" "hkey v = Some k"
    by (auto simp: rec_key_def split: sum.splits)
  obtain ms' where ms': "load_lines e (map (ledger_line e) ms) (insert k seen, md @ [m'])
                 = Inr (insert k seen \<union> the ` rec_key ` set ms, (md @ [m']) @ ms')"
      "map rec_key ms' = map rec_key ms"
    using Cons.IH [of "insert k seen" "md @ [m']"] Cons.prems by auto
  have "load_lines e (map (ledger_line e) (m # ms)) (seen, md)
          = Inr (seen \<union> the ` rec_key ` set (m # ms), md @ (m' # ms'))"
    using m' v ms'(1) by simp
  moreover have "map rec_key (m' # ms') = map rec_key (m # ms)"
    using m'(2) ms'(2) by simp
  ultimately show ?case by blast
qed

lemma reloads_lines:
  assumes "\<forall>m\<in>set ms. reloads e m"
  shows "readlines [] (concat (map (ledger_line e) ms)) = map (ledger_line e) ms"
  using assms by (intro readlines_ledger_lines) (simp add: reloads_def)

lemma concat_lines_last:
  "ms \<noteq> [] \<Longrightarrow> last (concat (map (ledger_line e) ms)) = 10"
  by (induction ms) (auto simp: ledger_line_def)

text \<open>
  Loading the ledger that a run leaves behind: the records loaded before, then the
  new ones.
\<close>

lemma load_meta_after_run:
  assumes load: "load_meta e site_key w = Inr (seen0, md0)"
    and nl: "ledger_text site_key w = [] \<or> last (ledger_text site_key w) = 10"
    and ext: "extends e site_key (init_state cfg (seen0, md0) w) r new"
    and codec: "\<forall>m\<in>set new. reloads e m"
  shows "\<exists>md. load_meta e site_key (sys r) = Inr (seen_ids r, md)
              \<and> map rec_key md = map rec_key (metadata r)"
proof -
  let ?A = "ledger_text site_key w"
  let ?B = "concat (map (ledger_line e) new)"
  have led: "ledger_text site_key (sys r) = ?A @ ?B"
    using ext by (simp add: extends_def init_state_def)
  have lines: "readlines [] (?A @ ?B) = readlines [] ?A @ map (ledger_line e) new"
    using readlines_append [OF nl, of "[]" ?B] reloads_lines [OF codec] by simp
  have old: "load_lines e (readlines [] ?A) ({}, []) = Inr (seen0, md0)"
    using load by (simp add: load_meta_ledger_text)
  obtain new' where new': "load_lines e (map (ledger_line e) new) (seen0, md0)
                 = Inr (seen0 \<union> the ` rec_key ` set new, md0 @ new')"
      "map rec_key new' = map rec_key new"
    using load_lines_reload [OF codec] by blast
  have "load_meta e site_key (sys r) = Inr (seen0 \<union> the ` rec_key ` set new, md0 @ new')"
    by (simp add: load_meta_ledger_text led lines load_lines_append old new'(1))
  moreover have "seen_ids r = seen0 \<union> the ` rec_key ` set new" "metadata r = md0 @ new"
    using ext by (simp_all add: extends_def init_state_def)
  ultimately show ?thesis
    using new'(2) by simp
qed

lemma extends_distinct:
  assumes "extends e site_key st r new"
    and "seen_ids st = the ` rec_key ` set (metadata st)"
    and "distinct (map rec_key (metadata st))"
  shows "distinct (map rec_key (metadata r))"
proof -
  have "rec_key ` set (metadata st) \<inter> rec_key ` set new = {}"
  proof (rule ccontr)
    assume "rec_key ` set (metadata st) \<inter> rec_key ` set new \<noteq> {}"
    then obtain x y where xy: "x \<in> set (metadata st)" "y \<in> set new" "rec_key x = rec_key y"
      by auto
    then have "the (rec_key y) \<in> seen_ids st"
      using assms(2) by (metis imageI)
    then show False
      using assms(1) xy(2) by (simp add: extends_def)
  qed
  then show ?thesis
    using assms by (simp add: extends_def)
qed

text \<open>
  C2. A pass on an identifier that is in \<open>seen_ids\<close> only moves to the next
  identifier: no fetch, no attempt counted, no sleep. A run resumed from a ledger
  whose records have different identifiers keeps them so, at every pass and at the
  end: what it adds are records, one ledger line each, whose identifiers are neither
  in the ledger nor repeated. And when a run has ended, a second run on the ledger it
  left loads the same identifiers and returns at once, with no request and no new
  record.
\<close>

theorem resume_adds_no_duplicate:
  "(PInt (current_id st) \<in> seen_ids st
      \<longrightarrow> loop_body e site_key cfg st = Inr (st\<lparr>current_id := current_id st + step cfg\<rparr>))
   \<and> (load_meta e site_key w = Inr (seen0, md0) \<and> distinct (map rec_key md0)
      \<longrightarrow> (\<forall>n. distinct (map rec_key
                   (metadata (walk_n e target site_key cfg n (init_state cfg (seen0, md0) w))))
               \<and> (\<exists>new. extends e site_key (init_state cfg (seen0, md0) w)
                     (walk_n e target site_key cfg n (init_state cfg (seen0, md0) w)) new))
          \<and> (\<forall>r. collect_run e target site_key cfg w = Some (Inr r)
                 \<longrightarrow> distinct (map rec_key (metadata r))))
   \<and> (load_meta e site_key w = Inr (seen0, md0)
        \<and> (ledger_text site_key w = [] \<or> last (ledger_text site_key w) = 10)
        \<and> collect_run e target site_key cfg w = Some (Inr r1)
        \<and> (\<forall>m\<in>set (drop (length md0) (metadata r1)). reloads e m)
      \<longrightarrow> (\<exists>r2. collect_run e target site_key cfg (sys r1) = Some (Inr r2)
                \<and> sys r2 = sys r1 \<and> attempts r2 = 0 \<and> seen_ids r2 = seen_ids r1
                \<and> map rec_key (metadata r2) = map rec_key (metadata r1)))"
proof (intro conjI impI)
  assume "PInt (current_id st) \<in> seen_ids st"
  then show "loop_body e site_key cfg st = Inr (st\<lparr>current_id := current_id st + step cfg\<rparr>)"
    by (rule loop_body_skip)
next
  let ?st = "init_state cfg (seen0, md0) w"
  assume h: "load_meta e site_key w = Inr (seen0, md0) \<and> distinct (map rec_key md0)"
  then have keys: "seen_ids ?st = the ` rec_key ` set (metadata ?st)"
    and dist: "distinct (map rec_key (metadata ?st))"
    using load_meta_keys [of e site_key w seen0 md0] by (simp_all add: init_state_def)
  have inv: "distinct (map rec_key (metadata (walk_n e target site_key cfg n ?st)))
             \<and> (\<exists>new. extends e site_key ?st (walk_n e target site_key cfg n ?st) new)" for n
  proof -
    obtain new where new: "extends e site_key ?st (walk_n e target site_key cfg n ?st) new"
      using walk_n_extends by blast
    from extends_distinct [OF new keys dist] new show ?thesis
      by blast
  qed
  show "\<forall>n. distinct (map rec_key (metadata (walk_n e target site_key cfg n ?st)))
             \<and> (\<exists>new. extends e site_key ?st (walk_n e target site_key cfg n ?st) new)"
    using inv by blast
  show "\<forall>r. collect_run e target site_key cfg w = Some (Inr r)
                 \<longrightarrow> distinct (map rec_key (metadata r))"
  proof (intro allI impI)
    fix r
    assume "collect_run e target site_key cfg w = Some (Inr r)"
    then have "walk_loop e target site_key cfg ?st = Some (Inr r)"
      using h by (simp add: collect_run_Inr)
    then obtain n where "r = walk_n e target site_key cfg n ?st"
      using walk_loop_walk_n by blast
    then show "distinct (map rec_key (metadata r))"
      using inv by simp
  qed
next
  let ?st = "init_state cfg (seen0, md0) w"
  assume h: "load_meta e site_key w = Inr (seen0, md0)
        \<and> (ledger_text site_key w = [] \<or> last (ledger_text site_key w) = 10)
        \<and> collect_run e target site_key cfg w = Some (Inr r1)
        \<and> (\<forall>m\<in>set (drop (length md0) (metadata r1)). reloads e m)"
  then have "load_meta e site_key w = Inr (seen0, md0)"
    and "collect_run e target site_key cfg w = Some (Inr r1)"
    by simp_all
  then have "walk_loop e target site_key cfg ?st = Some (Inr r1)"
    using collect_run_Inr by blast
  then obtain n where n: "r1 = walk_n e target site_key cfg n ?st" "\<not> card (seen_ids r1) < target"
    using walk_loop_walk_n by blast
  obtain new where new: "extends e site_key ?st r1 new"
    using walk_n_extends n(1) by blast
  then have "drop (length md0) (metadata r1) = new"
    by (simp add: extends_def init_state_def)
  then have codec: "\<forall>m\<in>set new. reloads e m"
    using h by simp
  obtain md where md: "load_meta e site_key (sys r1) = Inr (seen_ids r1, md)"
      "map rec_key md = map rec_key (metadata r1)"
    using load_meta_after_run [OF _ _ new codec] h by blast
  let ?r2 = "init_state cfg (seen_ids r1, md) (sys r1)"
  have "walk_loop e target site_key cfg ?r2 = Some (Inr ?r2)"
    using n(2) by (subst walk_loop.simps) (simp add: init_state_def)
  then have "collect_run e target site_key cfg (sys r1) = Some (Inr ?r2)"
    using md(1) by (simp add: collect_run_def)
  then show "\<exists>r2. collect_run e target site_key cfg (sys r1) = Some (Inr r2)
                \<and> sys r2 = sys r1 \<and> attempts r2 = 0 \<and> seen_ids r2 = seen_ids r1
                \<and> map rec_key (metadata r2) = map rec_key (metadata r1)"
    using md(2) by (intro exI [of _ ?r2]) (simp add: init_state_def)
qed

theorem resume_adds_no_duplicate_witness:
  "loop_body (mock_env always_ok) povarenok povarenok_cfg seen_state
     = Inr (seen_state\<lparr>current_id := 19999\<rparr>)
   \<and> (\<exists>r1 r2. collect_run (mock_env always_ok) 1 povarenok povarenok_cfg world0 = Some (Inr r1)
         \<and> map rec_key (metadata r1) = [Some (PInt 20000)]
         \<and> collect_run (mock_env always_ok) 1 povarenok povarenok_cfg (sys r1) = Some (Inr r2)
         \<and> sys r2 = sys r1 \<and> attempts r2 = 0
         \<and> map rec_key (metadata r2) = [Some (PInt 20000)])"
proof -
  let ?e = "mock_env always_ok"
  let ?st0 = "init_state povarenok_cfg ({}, []) world0"
  let ?m = "new_meta ?e povarenok povarenok_cfg ?st0"
  have seen: "PInt (current_id seen_state) \<in> seen_ids seen_state"
    by (simp add: seen_state_def init_state_def povarenok_cfg_def)
  have load0: "load_meta ?e povarenok world0 = Inr ({}, [])"
    by (simp add: load_meta_def world0_def)
  have f: "fst (fetched ?e povarenok_cfg ?st0) = (Some 200, Some long_body)"
    using fetched_probe [of ?e povarenok_cfg ?st0]
    by (simp add: init_state_def world0_def fetch_url_mock always_ok_def)
  then have takes: "takes ?e povarenok povarenok_cfg ?st0"
    by (simp add: takes_def long_body_accepted init_state_def)
  have "pass_writes ?e povarenok povarenok_cfg ?st0"
    by (simp add: pass_writes_def f writes_ok_mock utf8_ok_long_body)
  then obtain r1 where pass: "loop_body ?e povarenok povarenok_cfg ?st0 = Inr r1"
    using loop_body_returns [of ?e povarenok povarenok_cfg ?st0] by blast
  have r1: "seen_ids r1 = {PInt 20000}" "metadata r1 = [?m]"
    using loop_body_Inr(1,2) [OF pass] takes by (simp_all add: init_state_def povarenok_cfg_def)
  have "walk_n ?e 1 povarenok povarenok_cfg (Suc 0) ?st0 = r1"
    using pass by (simp add: init_state_def)
  then have "walk_loop ?e 1 povarenok povarenok_cfg ?st0 = Some (Inr r1)"
    using walk_n_done [where e = ?e and target = 1 and site_key = povarenok and cfg = povarenok_cfg
        and n = "Suc 0" and st = ?st0] r1(1) by simp
  then have run1: "collect_run ?e 1 povarenok povarenok_cfg world0 = Some (Inr r1)"
    by (simp add: collect_run_def load0)
  have key: "rec_key ?m = Some (PInt 20000)"
    by (simp add: new_meta_def rec_key_make_meta init_state_def povarenok_cfg_def)
  have "getitem_id ?m = Inr (PInt 20000)"
    by (simp add: new_meta_def make_meta_def Let_def init_state_def povarenok_cfg_def)
  then have dumps: "json_dumps ?e ?m = id_prefix @ str_int 20000 @ [125]"
    by (simp add: mock_env_def id_dumps_def)
  have loads: "json_loads ?e (id_prefix @ str_int 20000 @ [125, 10]) = Inr rec20000"
    by (simp add: mock_env_def id_loads_def id_prefix_def str_int_def digits.simps parse_digits_def
          rec20000_def)
  have "rec_key rec20000 = Some (PInt 20000)"
    by (simp add: rec20000_def rec_key_def)
  then have codec: "\<forall>m\<in>set (drop (length ([]::pyval list)) (metadata r1)). reloads ?e m"
    using key loads
    by (simp add: r1 reloads_def ledger_line_def dumps id_prefix_def str_int_def digits.simps)
  have nl: "ledger_text povarenok world0 = [] \<or> last (ledger_text povarenok world0) = 10"
    by (simp add: ledger_text_def world0_def)
  have keys1: "map rec_key (metadata r1) = [Some (PInt 20000)]"
    using key by (simp add: r1)
  note T = resume_adds_no_duplicate [where st = seen_state and e = ?e and site_key = povarenok
        and cfg = povarenok_cfg and w = world0 and ?seen0.0 = "{}" and ?md0.0 = "[]" and target = 1
        and ?r1.0 = r1]
  have "loop_body ?e povarenok povarenok_cfg seen_state
          = Inr (seen_state\<lparr>current_id := current_id seen_state + step povarenok_cfg\<rparr>)"
    using T [THEN conjunct1] seen by (rule mp)
  moreover have "current_id seen_state + step povarenok_cfg = 19999"
    by (simp add: seen_state_def init_state_def povarenok_cfg_def)
  ultimately have A: "loop_body ?e povarenok povarenok_cfg seen_state
          = Inr (seen_state\<lparr>current_id := 19999\<rparr>)"
    by simp
  have "\<exists>r2. collect_run ?e 1 povarenok povarenok_cfg (sys r1) = Some (Inr r2)
                \<and> sys r2 = sys r1 \<and> attempts r2 = 0 \<and> seen_ids r2 = seen_ids r1
                \<and> map rec_key (metadata r2) = map rec_key (metadata r1)"
    using T [THEN conjunct2, THEN conjunct2] load0 nl run1 codec by blast
  then obtain r2 where "collect_run ?e 1 povarenok povarenok_cfg (sys r1) = Some (Inr r2)"
      "sys r2 = sys r1" "attempts r2 = 0" "map rec_key (metadata r2) = [Some (PInt 20000)]"
    using keys1 by auto
  then have "\<exists>r1 r2. collect_run ?e 1 povarenok povarenok_cfg world0 = Some (Inr r1)
         \<and> map rec_key (metadata r1) = [Some (PInt 20000)]
         \<and> collect_run ?e 1 povarenok povarenok_cfg (sys r1) = Some (Inr r2)
         \<and> sys r2 = sys r1 \<and> attempts r2 = 0
         \<and> map rec_key (metadata r2) = [Some (PInt 20000)]"
    using run1 keys1 by (intro exI [of _ r1] exI [of _ r2]) simp
  with A show ?thesis
    by (rule conjI)
qed

end
